theory Spec2Isabelle
  imports Complex_Main
begin

section \<open>Gymnastics result extraction: the line pipelines of the three scripts\<close>

text \<open>
  The repository holds three scripts (\<^verbatim>\<open>events.py\<close>, \<^verbatim>\<open>individual_allaround.py\<close>,
  \<^verbatim>\<open>team_allaround.py\<close>).  Each turns the rows of an extracted table into text lines,
  recognises lines by regular expressions and stitches neighbouring lines into records.
  This theory embeds the pure part of that code: everything from the list of cell rows
  (what the table extractor returns) to the list of records (what is handed to the data
  frame), and the column alignment of \<^verbatim>\<open>events.py\<close>.

  Conventions of the embedding.
  \<^item> A Python \<^verbatim>\<open>str\<close> is a \<^typ>\<open>string\<close>; only text of characters below code point 256
    is modelled, so \<^verbatim>\<open>\s\<close>, \<^verbatim>\<open>\d\<close> and \<^verbatim>\<open>str.strip\<close> are their parts on those characters.
  \<^item> A Python \<^verbatim>\<open>float\<close> obtained from a decimal token is the exact rational the token
    denotes; sums are exact and \<^verbatim>\<open>round(x, 3)\<close> rounds the exact value (ties to even).
    Binary rounding, infinities and signed zero are not modelled.  \<^verbatim>\<open>float("nan")\<close> and
    \<^verbatim>\<open>None\<close> are their own values of \<open>pyval\<close>.
  \<^item> A raised exception is a value \<open>Inl e\<close> of a sum type.
\<close>

subsection \<open>Characters and the string helpers of Python\<close>

text \<open>The characters \<^verbatim>\<open>str.isspace\<close> accepts below code point 256: tab, line feed, vertical
  tab, form feed, carriage return, the four separators 0x1C to 0x1F, the blank, the next-line
  character 0x85 and the no-break space 0xA0.\<close>

definition is_space :: "char \<Rightarrow> bool" where
  "is_space c = (c \<in> set [CHR 0x09, CHR 0x0A, CHR 0x0B, CHR 0x0C, CHR 0x0D,
                          CHR 0x1C, CHR 0x1D, CHR 0x1E, CHR 0x1F, CHR 0x20, CHR 0x85, CHR 0xA0])"

definition is_digit :: "char \<Rightarrow> bool" where
  "is_digit c = (let n = (of_char c :: nat) in 48 \<le> n \<and> n \<le> 57)"

definition is_upper :: "char \<Rightarrow> bool" where
  "is_upper c = (let n = (of_char c :: nat) in 65 \<le> n \<and> n \<le> 90)"

definition is_lower :: "char \<Rightarrow> bool" where
  "is_lower c = (let n = (of_char c :: nat) in 97 \<le> n \<and> n \<le> 122)"

text \<open>\<^verbatim>\<open>s.strip()\<close>\<close>

definition py_strip :: "string \<Rightarrow> string" where
  "py_strip s = rev (dropWhile is_space (rev (dropWhile is_space s)))"

text \<open>\<^verbatim>\<open>re.sub(r"\s+", " ", s)\<close>: every maximal run of white space becomes one blank.\<close>

function sub_ws :: "string \<Rightarrow> string" where
  "sub_ws [] = []"
| "sub_ws (c # cs) =
     (if is_space c then CHR '' '' # sub_ws (dropWhile is_space cs) else c # sub_ws cs)"
  by pat_completeness auto
termination
  by (relation "measure length") (auto simp: length_dropWhile_le less_Suc_eq_le)

text \<open>\<^verbatim>\<open>def norm(s): return re.sub(r"\s+", " ", str(s).strip())\<close>\<close>

definition norm_str :: "string \<Rightarrow> string" where
  "norm_str s = sub_ws (py_strip s)"

text \<open>\<^verbatim>\<open>sep.join(parts)\<close>\<close>

fun py_join :: "string \<Rightarrow> string list \<Rightarrow> string" where
  "py_join sep [] = []"
| "py_join sep [x] = x"
| "py_join sep (x # y # ys) = x @ sep @ py_join sep (y # ys)"

text \<open>\<^verbatim>\<open>s.split()\<close>: the maximal runs of characters that are not white space.\<close>

function py_split :: "string \<Rightarrow> string list" where
  "py_split s =
     (case dropWhile is_space s of
        [] \<Rightarrow> []
      | c # cs \<Rightarrow> (c # takeWhile (\<lambda>x. \<not> is_space x) cs)
                  # py_split (dropWhile (\<lambda>x. \<not> is_space x) cs))"
  by pat_completeness auto
termination
proof (relation "measure length", goal_cases)
  case 1 show ?case by simp
next
  case (2 s c cs)
  have "length (dropWhile (\<lambda>x. \<not> is_space x) cs) \<le> length cs"
    by (rule length_dropWhile_le)
  moreover have "length (c # cs) \<le> length s"
    unfolding 2[symmetric] by (rule length_dropWhile_le)
  ultimately show ?case by simp
qed

declare py_split.simps [simp del]

text \<open>\<^verbatim>\<open>tok.startswith('-')\<close>\<close>

definition starts_minus :: "string \<Rightarrow> bool" where
  "starts_minus tok = (case tok of [] \<Rightarrow> False | c # _ \<Rightarrow> c = CHR ''-'')"

subsection \<open>The Line Normalizer\<close>

text \<open>
  \<^verbatim>\<open>def collapse_row(row):
      parts = [str(x) for x in row.tolist() if str(x).strip() not in ("", "None", "nan")]
      return norm(" ".join(parts))\<close>
  A row is given as the list of the texts \<^verbatim>\<open>str(x)\<close> of its cells.
\<close>

definition placeholders :: "string list" where
  "placeholders = ['''', ''None'', ''nan'']"

definition collapse_row :: "string list \<Rightarrow> string" where
  "collapse_row row =
     norm_str (py_join '' '' [x \<leftarrow> row. py_strip x \<notin> set placeholders])"

text \<open>\<^verbatim>\<open>lines = [collapse_row(raw.iloc[i]) for i in range(len(raw))]
  lines = [ln for ln in lines if ln]\<close>\<close>

definition build_lines :: "string list list \<Rightarrow> string list" where
  "build_lines raw = [l \<leftarrow> map collapse_row raw. l \<noteq> []]"

subsection \<open>Regular expressions: a backtracking matcher\<close>

text \<open>
  The patterns of the scripts use character classes, concatenation, greedy and lazy
  repetition with bounds, named groups and the anchors \<^verbatim>\<open>^\<close> and \<^verbatim>\<open>$\<close>.  \<open>rx\<close> is their
  abstract syntax.  \<open>Rep greedy lo hi r\<close> is \<^verbatim>\<open>r{lo,hi}\<close> (\<open>hi = None\<close>: unbounded), lazy when
  \<open>greedy\<close> is false.

  A matcher state is the position, the rest of the subject and the groups captured so far
  (latest first).  \<open>rxm r k st\<close> runs \<open>r\<close> from \<open>st\<close> and hands every way \<open>r\<close> can match to
  the continuation \<open>k\<close>, in the order the backtracking engine of Python's \<^verbatim>\<open>re\<close> tries them;
  the first way on which \<open>k\<close> succeeds is the answer.  An iteration of a repetition that
  consumes nothing is not repeated (\<open>guard\<close>); no repeated sub-pattern of the scripts can
  match the empty string.  An unbounded repetition runs at most \<open>lo + length rest\<close> times,
  which bounds it by the characters left.
\<close>

datatype rx =
    Cls "char \<Rightarrow> bool"
  | Bol
  | Eol
  | Eps
  | Seq rx rx
  | Rep bool nat "nat option" rx
  | Grp string rx

type_synonym caps = "(string \<times> string) list"
type_synonym mstate = "nat \<times> string \<times> caps"
type_synonym cont = "mstate \<Rightarrow> mstate option"

definition guard :: "nat \<Rightarrow> cont \<Rightarrow> cont" where
  "guard p k st = (if p < fst st then k st else None)"

primrec rep :: "nat \<Rightarrow> (cont \<Rightarrow> cont) \<Rightarrow> bool \<Rightarrow> nat \<Rightarrow> cont \<Rightarrow> cont" where
  "rep 0 f g lo k st = (if lo = 0 then k st else None)"
| "rep (Suc h) f g lo k st =
     (if g then
        (case f (guard (fst st) (rep h f g (lo - 1) k)) st of
           Some r \<Rightarrow> Some r
         | None \<Rightarrow> if lo = 0 then k st else None)
      else
        (case (if lo = 0 then k st else None) of
           Some r \<Rightarrow> Some r
         | None \<Rightarrow> f (guard (fst st) (rep h f g (lo - 1) k)) st))"

definition grp_end :: "string \<Rightarrow> mstate \<Rightarrow> cont \<Rightarrow> cont" where
  "grp_end n st0 k st =
     k (fst st, fst (snd st), (n, take (fst st - fst st0) (fst (snd st0))) # snd (snd st))"

primrec rxm :: "rx \<Rightarrow> cont \<Rightarrow> cont" where
  "rxm (Cls P) k st =
     (case st of (p, [], c) \<Rightarrow> None
               | (p, x # xs, c) \<Rightarrow> if P x then k (Suc p, xs, c) else None)"
| "rxm Bol k st = (if fst st = 0 then k st else None)"
| "rxm Eol k st = (if fst (snd st) = [] \<or> fst (snd st) = [CHR 0x0A] then k st else None)"
| "rxm Eps k st = k st"
| "rxm (Seq a b) k st = rxm a (rxm b k) st"
| "rxm (Rep g lo hi r) k st =
     rep (case hi of None \<Rightarrow> lo + length (fst (snd st)) | Some h \<Rightarrow> h) (rxm r) g lo k st"
| "rxm (Grp n r) k st = rxm r (grp_end n st k) st"

declare rxm.simps [simp del] rep.simps [simp del]

fun cat :: "rx list \<Rightarrow> rx" where
  "cat [] = Eps"
| "cat (r # rs) = Seq r (cat rs)"

definition lit :: "char \<Rightarrow> rx" where "lit c = Cls (\<lambda>x. x = c)"
definition rx_star :: "rx \<Rightarrow> rx" where "rx_star r = Rep True 0 None r"
definition rx_plus :: "rx \<Rightarrow> rx" where "rx_plus r = Rep True 1 None r"
definition rx_opt :: "rx \<Rightarrow> rx" where "rx_opt r = Rep True 0 (Some 1) r"
definition rx_times :: "nat \<Rightarrow> nat \<Rightarrow> rx \<Rightarrow> rx" where "rx_times lo hi r = Rep True lo (Some hi) r"

text \<open>\<^verbatim>\<open>pattern.match(s)\<close>: the groups of the first way the pattern matches at position 0,
  \<open>None\<close> when there is none.\<close>

definition re_match :: "rx \<Rightarrow> string \<Rightarrow> caps option" where
  "re_match r s = map_option (\<lambda>st. snd (snd st)) (rxm r Some (0, s, []))"

text \<open>\<^verbatim>\<open>m.group(name)\<close> of a group that took part in the match.\<close>

definition re_group :: "caps \<Rightarrow> string \<Rightarrow> string" where
  "re_group m n = (case map_of m n of Some t \<Rightarrow> t | None \<Rightarrow> [])"

text \<open>
  \<^verbatim>\<open>pattern.finditer(s)\<close> and \<^verbatim>\<open>pattern.findall(s)\<close>: the matches found scanning from left to
  right, each as its text and its groups.  After a match the scan goes on where the match
  ended; where the pattern does not match, one character further.  (An empty match also
  moves one character on.)
\<close>

function finditer_from :: "rx \<Rightarrow> nat \<Rightarrow> string \<Rightarrow> (string \<times> caps) list" where
  "finditer_from r p s =
     (case rxm r Some (p, s, []) of
        None \<Rightarrow> (case s of [] \<Rightarrow> [] | _ # t \<Rightarrow> finditer_from r (Suc p) t)
      | Some (p', s', c) \<Rightarrow>
          (if length s' < length s
           then (take (length s - length s') s, c) # finditer_from r (p + (length s - length s')) s'
           else ([], c) # (case s of [] \<Rightarrow> [] | _ # t \<Rightarrow> finditer_from r (Suc p) t)))"
  by pat_completeness auto
termination
  by (relation "measure (\<lambda>(r, p, s). length s)") auto

declare finditer_from.simps [simp del]

definition finditer :: "rx \<Rightarrow> string \<Rightarrow> (string \<times> caps) list" where
  "finditer r s = finditer_from r 0 s"

subsection \<open>The patterns of the scripts\<close>

text \<open>\<^verbatim>\<open>IS_FLOAT = re.compile(r"^-?\d+(?:\.\d+)?$")\<close>\<close>

definition IS_FLOAT :: rx where
  "IS_FLOAT = cat [Bol, rx_opt (lit CHR ''-''), rx_plus (Cls is_digit),
                   rx_opt (cat [lit CHR ''.'', rx_plus (Cls is_digit)]), Eol]"

text \<open>
  \<^verbatim>\<open>IDENTITY_RE = ^\s*(?P<rank>\d+)\s+(?P<bib>\d+)\s+(?P<name>(?:[A-Z][^\d]{0,40}\s?)+?)
                \s+(?P<noc>[A-Z]{3})\s+D\s+E\s*$\<close>   (written with \<^verbatim>\<open>re.VERBOSE\<close>)
\<close>

definition IDENTITY_RE :: rx where
  "IDENTITY_RE = cat [Bol, rx_star (Cls is_space),
     Grp ''rank'' (rx_plus (Cls is_digit)), rx_plus (Cls is_space),
     Grp ''bib'' (rx_plus (Cls is_digit)), rx_plus (Cls is_space),
     Grp ''name'' (Rep False 1 None
        (cat [Cls is_upper, rx_times 0 40 (Cls (\<lambda>c. \<not> is_digit c)), rx_opt (Cls is_space)])),
     rx_plus (Cls is_space), Grp ''noc'' (rx_times 3 3 (Cls is_upper)), rx_plus (Cls is_space),
     lit CHR ''D'', rx_plus (Cls is_space), lit CHR ''E'', rx_star (Cls is_space), Eol]"

text \<open>\<^verbatim>\<open>\d{lo,hi}\.\d{3}\<close>, the shape of a score with three decimals.\<close>

definition score3 :: "nat \<Rightarrow> nat \<Rightarrow> rx" where
  "score3 lo hi = cat [rx_times lo hi (Cls is_digit), lit CHR ''.'', rx_times 3 3 (Cls is_digit)]"

text \<open>\<^verbatim>\<open>D_SCORE_RK = (?P<D>\d{1,2}\.\d{3})\s+(?P<score>\d{1,2}\.\d{3})\s+\((?P<rk>\d+)\)\<close>\<close>

definition D_SCORE_RK :: rx where
  "D_SCORE_RK = cat [Grp ''D'' (score3 1 2), rx_plus (Cls is_space),
     Grp ''score'' (score3 1 2), rx_plus (Cls is_space),
     lit CHR ''('', Grp ''rk'' (rx_plus (Cls is_digit)), lit CHR '')'']"

text \<open>\<^verbatim>\<open>\(\d+\)\<close>\<close>

definition rk_paren :: rx where
  "rk_paren = cat [lit CHR ''('', rx_plus (Cls is_digit), lit CHR '')'']"

text \<open>
  \<^verbatim>\<open>TEAM_HDR = ^\s*(?P<trank>\d+)\s+(?P<noc>[A-Z]{3})\s*-\s*.*?
      (?P<v>\d{1,3}\.\d{3})\s*\(\d+\)\s+(?P<ub>\d{1,3}\.\d{3})\s*\(\d+\)\s+
      (?P<bb>\d{1,3}\.\d{3})\s*\(\d+\)\s+(?P<fx>\d{1,3}\.\d{3})\s*\(\d+\)\s+
      (?P<ttotal>\d{2,3}\.\d{3})\s*$\<close>   (written with \<^verbatim>\<open>re.VERBOSE\<close>)
\<close>

definition TEAM_HDR :: rx where
  "TEAM_HDR = cat [Bol, rx_star (Cls is_space),
     Grp ''trank'' (rx_plus (Cls is_digit)), rx_plus (Cls is_space),
     Grp ''noc'' (rx_times 3 3 (Cls is_upper)), rx_star (Cls is_space), lit CHR ''-'',
     rx_star (Cls is_space), Rep False 0 None (Cls (\<lambda>c. c \<noteq> CHR 0x0A)),
     Grp ''v'' (score3 1 3), rx_star (Cls is_space), rk_paren, rx_plus (Cls is_space),
     Grp ''ub'' (score3 1 3), rx_star (Cls is_space), rk_paren, rx_plus (Cls is_space),
     Grp ''bb'' (score3 1 3), rx_star (Cls is_space), rk_paren, rx_plus (Cls is_space),
     Grp ''fx'' (score3 1 3), rx_star (Cls is_space), rk_paren, rx_plus (Cls is_space),
     Grp ''ttotal'' (score3 2 3), rx_star (Cls is_space), Eol]"

text \<open>\<^verbatim>\<open>[A-Za-z'\-]\<close>\<close>

definition name_char :: "char \<Rightarrow> bool" where
  "name_char c = (is_upper c \<or> is_lower c \<or> c = CHR 0x27 \<or> c = CHR ''-'')"

text \<open>
  \<^verbatim>\<open>ATH_HDR = ^\s*(?P<bib>\d{3,})\s+(?P<name>[A-Z][A-Za-z'\-]+(?:\s[A-Z][A-Za-z'\-]+)*)\s+
      D\s+E\s*(?P<trail>.*)$\<close>   (written with \<^verbatim>\<open>re.VERBOSE\<close>)
\<close>

definition ATH_HDR :: rx where
  "ATH_HDR = cat [Bol, rx_star (Cls is_space),
     Grp ''bib'' (Rep True 3 None (Cls is_digit)), rx_plus (Cls is_space),
     Grp ''name'' (cat [Cls is_upper, rx_plus (Cls name_char),
        rx_star (cat [Cls is_space, Cls is_upper, rx_plus (Cls name_char)])]),
     rx_plus (Cls is_space), lit CHR ''D'', rx_plus (Cls is_space), lit CHR ''E'',
     rx_star (Cls is_space),
     Grp ''trail'' (rx_star (Cls (\<lambda>c. c \<noteq> CHR 0x0A))), Eol]"

subsection \<open>Numbers\<close>

datatype error = ValueError

definition digit_val :: "char \<Rightarrow> nat" where
  "digit_val c = of_char c - 48"

definition nat_of_digits :: "string \<Rightarrow> nat" where
  "nat_of_digits s = foldl (\<lambda>a c. 10 * a + digit_val c) 0 s"

text \<open>\<^verbatim>\<open>int(s)\<close> for a string of digits (the groups \<^verbatim>\<open>\d+\<close> it is applied to).\<close>

definition py_int :: "string \<Rightarrow> int" where
  "py_int s = int (nat_of_digits s)"

text \<open>The number a token of the shape \<^verbatim>\<open>-?\d+(\.\d+)?\<close> denotes (white space around it is
  skipped, as \<^verbatim>\<open>float\<close> does).\<close>

definition decimal_value :: "string \<Rightarrow> rat" where
  "decimal_value tok =
     (let t = py_strip tok;
          neg = starts_minus t;
          body = (if neg then tl t else t);
          ip = takeWhile (\<lambda>c. c \<noteq> CHR ''.'') body;
          fp = drop (length ip + 1) body;
          v = of_nat (nat_of_digits ip) + of_nat (nat_of_digits fp) / 10 ^ length fp
      in if neg then - v else v)"

text \<open>\<^verbatim>\<open>IS_FLOAT.match(t)\<close> as a truth value.\<close>

definition is_float :: "string \<Rightarrow> bool" where
  "is_float t = (re_match IS_FLOAT t \<noteq> None)"

text \<open>
  \<^verbatim>\<open>float(t)\<close>.  Every string the scripts convert has matched \<^verbatim>\<open>IS_FLOAT\<close> (or a pattern of
  digits with a decimal point); on those \<^verbatim>\<open>float\<close> returns the number.  On a string that is
  no number \<^verbatim>\<open>float\<close> raises \<^verbatim>\<open>ValueError\<close>.  The further literals \<^verbatim>\<open>float\<close> accepts
  (exponents, \<^verbatim>\<open>inf\<close>, \<^verbatim>\<open>nan\<close>, underscores) are outside the model: it answers
  \<^verbatim>\<open>ValueError\<close> for them too.
\<close>

definition py_float :: "string \<Rightarrow> error + rat" where
  "py_float t = (if is_float t then Inr (decimal_value t) else Inl ValueError)"

text \<open>\<^verbatim>\<open>def floats_from(s): return [t for t in s.split() if IS_FLOAT.match(t)]\<close>\<close>

definition floats_from :: "string \<Rightarrow> string list" where
  "floats_from s = [t \<leftarrow> py_split s. is_float t]"

text \<open>\<^verbatim>\<open>round(x, 3)\<close> on the exact value, ties to the even neighbour.\<close>

definition round3 :: "rat \<Rightarrow> rat" where
  "round3 x =
     (let y = x * 1000; f = \<lfloor>y\<rfloor>; d = y - of_int f;
          n = (if d < 1 / 2 then f else if 1 / 2 < d then f + 1 else if even f then f else f + 1)
      in of_int n / 1000)"

subsection \<open>Team script: pairing the D/Score tokens\<close>

text \<open>
  \<^verbatim>\<open>def parse_ds_pairs(tokens):
      vals = list(map(float, tokens))
      pairs = []
      for i in range(0, len(vals) - 1, 2):
          d, s = vals[i], vals[i+1]
          pairs.append((d, s))
          if len(pairs) == 4:
              break
      return pairs\<close>
  \<open>float_list\<close> is the first line: the first token that is no number raises.
\<close>

fun float_list :: "string list \<Rightarrow> error + rat list" where
  "float_list [] = Inr []"
| "float_list (t # ts) =
     (case py_float t of
        Inl e \<Rightarrow> Inl e
      | Inr v \<Rightarrow> (case float_list ts of Inl e \<Rightarrow> Inl e | Inr vs \<Rightarrow> Inr (v # vs)))"

function ds_loop :: "rat list \<Rightarrow> nat \<Rightarrow> (rat \<times> rat) list \<Rightarrow> (rat \<times> rat) list" where
  "ds_loop vals i pairs =
     (if i + 1 < length vals
      then (let pairs' = pairs @ [(vals ! i, vals ! (i + 1))]
            in if length pairs' = 4 then pairs' else ds_loop vals (i + 2) pairs')
      else pairs)"
  by pat_completeness auto
termination
  by (relation "measure (\<lambda>(vals, i, pairs). length vals - i)") auto

declare ds_loop.simps [simp del]

definition parse_ds_pairs :: "string list \<Rightarrow> error + (rat \<times> rat) list" where
  "parse_ds_pairs tokens =
     (case float_list tokens of Inl e \<Rightarrow> Inl e | Inr vals \<Rightarrow> Inr (ds_loop vals 0 []))"

subsection \<open>The Execution/Penalty matchers\<close>

text \<open>
  Team script:
  \<^verbatim>\<open>def parse_e_pen(tokens, max_groups):
      vals = []; i = 0; t = tokens[:]
      while len(vals) < max_groups and i < len(t):
          if not IS_FLOAT.match(t[i]):
              break
          E = float(t[i]); i += 1
          Pen = 0.0
          if i < len(t) and t[i].startswith("-") and IS_FLOAT.match(t[i]):
              Pen = float(t[i]); i += 1
          vals.append((E, Pen))
      return vals\<close>
  Both conversions are of tokens that matched \<^verbatim>\<open>IS_FLOAT\<close>, so they cannot raise.
\<close>

function e_pen_loop :: "string list \<Rightarrow> int \<Rightarrow> nat \<Rightarrow> (rat \<times> rat) list \<Rightarrow> (rat \<times> rat) list" where
  "e_pen_loop t max_groups i vals =
     (if int (length vals) < max_groups \<and> i < length t
      then (if \<not> is_float (t ! i) then vals
            else (let E = decimal_value (t ! i); i1 = i + 1
                  in if i1 < length t \<and> starts_minus (t ! i1) \<and> is_float (t ! i1)
                     then e_pen_loop t max_groups (i1 + 1) (vals @ [(E, decimal_value (t ! i1))])
                     else e_pen_loop t max_groups i1 (vals @ [(E, 0)])))
      else vals)"
  by pat_completeness auto
termination
  by (relation "measure (\<lambda>(t, m, i, vals). length t - i)") auto

declare e_pen_loop.simps [simp del]

definition parse_e_pen :: "string list \<Rightarrow> int \<Rightarrow> (rat \<times> rat) list" where
  "parse_e_pen tokens max_groups = e_pen_loop tokens max_groups 0 []"

text \<open>
  Individual script:
  \<^verbatim>\<open>def parse_e_pen_line(line):
      toks = norm(line).split()
      out = []; i = 0
      for _ in range(4):
          if i >= len(toks) or not IS_FLOAT.match(toks[i]):
              return None
          E = float(toks[i]); i += 1
          Pen = 0.0
          if i < len(toks) and toks[i].startswith('-') and IS_FLOAT.match(toks[i]):
              Pen = float(toks[i]); i += 1
          out.append((E, Pen))
      return out\<close>
  The first argument of the loop counts the rounds of \<^verbatim>\<open>range(4)\<close> still to run.
\<close>

fun e_pen_line_loop ::
  "nat \<Rightarrow> string list \<Rightarrow> nat \<Rightarrow> (rat \<times> rat) list \<Rightarrow> (rat \<times> rat) list option" where
  "e_pen_line_loop 0 toks i out = Some out"
| "e_pen_line_loop (Suc n) toks i out =
     (if length toks \<le> i \<or> \<not> is_float (toks ! i) then None
      else (let E = decimal_value (toks ! i); i1 = i + 1
            in if i1 < length toks \<and> starts_minus (toks ! i1) \<and> is_float (toks ! i1)
               then e_pen_line_loop n toks (i1 + 1) (out @ [(E, decimal_value (toks ! i1))])
               else e_pen_line_loop n toks i1 (out @ [(E, 0)])))"

definition parse_e_pen_line :: "string \<Rightarrow> (rat \<times> rat) list option" where
  "parse_e_pen_line line = e_pen_line_loop 4 (py_split (norm_str line)) 0 []"

text \<open>
  The grouping both matchers are described by, as a function on the token list: a
  number, then a number that starts with a minus sign if the next token is one; the
  groups end at the first token that is no number.
\<close>

fun e_pen_groups :: "string list \<Rightarrow> (rat \<times> rat) list" where
  "e_pen_groups [] = []"
| "e_pen_groups [t] = (if is_float t then [(decimal_value t, 0)] else [])"
| "e_pen_groups (t # u # ts) =
     (if \<not> is_float t then []
      else if starts_minus u \<and> is_float u
           then (decimal_value t, decimal_value u) # e_pen_groups ts
           else (decimal_value t, 0) # e_pen_groups (u # ts))"

subsection \<open>Individual script: the Difficulty/Score/Rank line\<close>

text \<open>
  \<^verbatim>\<open>line = re.sub(r'(?<=\d\.\d{3})(?=\d)', ' ', line)\<close>: a blank goes in at every position
  that has \<^verbatim>\<open>\d\.\d{3}\<close> directly before it and a digit directly after it.  The pattern is
  empty, so every such position of the original line is replaced; \<open>glue_behind\<close> is the
  look-behind, on the text before the position in reverse.
\<close>

definition glue_behind :: "string \<Rightarrow> bool" where
  "glue_behind pre =
     (case pre of
        d3 # d2 # d1 # dot # d0 # _ \<Rightarrow>
          is_digit d3 \<and> is_digit d2 \<and> is_digit d1 \<and> dot = CHR ''.'' \<and> is_digit d0
      | _ \<Rightarrow> False)"

fun deglue_from :: "string \<Rightarrow> string \<Rightarrow> string" where
  "deglue_from pre [] = []"
| "deglue_from pre (c # cs) =
     (if glue_behind pre \<and> is_digit c
      then CHR '' '' # c # deglue_from (c # pre) cs
      else c # deglue_from (c # pre) cs)"

definition deglue :: "string \<Rightarrow> string" where
  "deglue s = deglue_from [] s"

text \<open>\<^verbatim>\<open>\d{1,2}\.\d{3}\<close>, the pattern of \<^verbatim>\<open>re.findall\<close> in \<^verbatim>\<open>parse_dscore_line\<close>.\<close>

definition FLOAT3 :: rx where
  "FLOAT3 = score3 1 2"

text \<open>
  \<^verbatim>\<open>def parse_dscore_line(line):
      line = norm(line)
      line = re.sub(r'(?<=\d\.\d{3})(?=\d)', ' ', line)
      triplets = []
      for m in D_SCORE_RK.finditer(line):
          triplets.append({"D": float(m.group("D")), "Score": float(m.group("score")),
                           "Rk": int(m.group("rk"))})
      total = None
      floats = re.findall(r"\d{1,2}\.\d{3}", line)
      if floats:
          total = float(floats[-1])
      return triplets, total\<close>
  A triplet is the triple of its values for \<^verbatim>\<open>D\<close>, \<^verbatim>\<open>Score\<close> and \<^verbatim>\<open>Rk\<close>.  The texts converted
  have matched \<^verbatim>\<open>\d{1,2}\.\d{3}\<close> or \<^verbatim>\<open>\d+\<close>, so the conversions cannot raise.
\<close>

definition triplet_of :: "string \<times> caps \<Rightarrow> rat \<times> rat \<times> int" where
  "triplet_of tm =
     (decimal_value (re_group (snd tm) ''D''), decimal_value (re_group (snd tm) ''score''),
      py_int (re_group (snd tm) ''rk''))"

definition total_of :: "string \<Rightarrow> rat option" where
  "total_of line =
     (let floats = map fst (finditer FLOAT3 line)
      in if floats \<noteq> [] then Some (decimal_value (last floats)) else None)"

text \<open>The first two statements: the line as the patterns then see it.\<close>

definition dscore_text :: "string \<Rightarrow> string" where
  "dscore_text line0 = deglue (norm_str line0)"

definition parse_dscore_line :: "string \<Rightarrow> (rat \<times> rat \<times> int) list \<times> rat option" where
  "parse_dscore_line line0 =
     (let line = dscore_text line0
      in (map triplet_of (finditer D_SCORE_RK line), total_of line))"

subsection \<open>Records\<close>

text \<open>The values a record holds, and a record as a Python \<^verbatim>\<open>dict\<close> from column names to
  values.  \<open>PNaN\<close> is \<^verbatim>\<open>float("nan")\<close>, the marker of an unknown number.\<close>

datatype pyval = PNone | PInt int | PFloat rat | PNaN | PStr string

type_synonym pydict = "string \<rightharpoonup> pyval"

definition APPARATUS :: "string list" where
  "APPARATUS = [''Vault'', ''UnevenBars'', ''BalanceBeam'', ''Floor'']"

text \<open>\<^verbatim>\<open>cols = ["Rank","Bib","Name","NOC"]
         + [f"{a}_{f}" for a in APPARATUS for f in ("Score","D","E","Pen","Rk")] + ["Total"]\<close>\<close>

definition cols :: "string list" where
  "cols = [''Rank'', ''Bib'', ''Name'', ''NOC'']
          @ concat (map (\<lambda>a. map (\<lambda>f. a @ ''_'' @ f) [''Score'', ''D'', ''E'', ''Pen'', ''Rk''])
                        APPARATUS)
          @ [''Total'']"

subsection \<open>Individual script: the record loop of \<^verbatim>\<open>parse_pdf\<close>\<close>

text \<open>
  The body of \<^verbatim>\<open>for j, app in enumerate(APPARATUS)\<close>:
  \<^verbatim>\<open>D = d_trips[j]["D"]; Score = d_trips[j]["Score"]; Rk = d_trips[j]["Rk"]
  E, Pen = epen[j]
  rec[f"{app}_Score"] = Score; rec[f"{app}_D"] = D; rec[f"{app}_E"] = E
  rec[f"{app}_Pen"] = Pen; rec[f"{app}_Rk"] = Rk\<close>
\<close>

definition ind_set_app ::
  "(rat \<times> rat \<times> int) list \<Rightarrow> (rat \<times> rat) list \<Rightarrow> pydict \<Rightarrow> nat \<times> string \<Rightarrow> pydict" where
  "ind_set_app d_trips epen rec ja =
     (let j = fst ja; app = snd ja;
          D = fst (d_trips ! j); Score = fst (snd (d_trips ! j)); Rk = snd (snd (d_trips ! j));
          E = fst (epen ! j); Pen = snd (epen ! j)
      in rec(app @ ''_Score'' \<mapsto> PFloat Score, app @ ''_D'' \<mapsto> PFloat D,
             app @ ''_E'' \<mapsto> PFloat E, app @ ''_Pen'' \<mapsto> PFloat Pen,
             app @ ''_Rk'' \<mapsto> PInt Rk))"

text \<open>
  \<^verbatim>\<open>rank = int(m.group("rank")); bib = int(m.group("bib"))
  name = m.group("name").strip(); noc = m.group("noc")
  rec = {"Rank": rank, "Bib": bib, "Name": name, "NOC": noc}
  for j, app in enumerate(APPARATUS): ...
  rec["Total"] = total\<close>
\<close>

definition ind_record ::
  "caps \<Rightarrow> (rat \<times> rat \<times> int) list \<Rightarrow> rat option \<Rightarrow> (rat \<times> rat) list \<Rightarrow> pydict" where
  "ind_record m d_trips tot epen =
     (let rec0 = [''Rank'' \<mapsto> PInt (py_int (re_group m ''rank'')),
                  ''Bib'' \<mapsto> PInt (py_int (re_group m ''bib'')),
                  ''Name'' \<mapsto> PStr (py_strip (re_group m ''name'')),
                  ''NOC'' \<mapsto> PStr (re_group m ''noc'')];
          rec1 = foldl (ind_set_app d_trips epen) rec0 (enumerate 0 APPARATUS)
      in rec1(''Total'' \<mapsto> (case tot of None \<Rightarrow> PNone | Some t \<Rightarrow> PFloat t)))"

text \<open>
  One round of \<^verbatim>\<open>for i, line in enumerate(lines)\<close>: the record it appends, or \<open>None\<close> when
  the round ends in \<^verbatim>\<open>continue\<close>.
  \<^verbatim>\<open>m = IDENTITY_RE.match(line)
  if not m: continue
  if i - 1 < 0 or i + 1 >= len(lines): continue
  dscore_line = lines[i - 1]; e_line = lines[i + 1]
  d_trips, total = parse_dscore_line(dscore_line)
  epen = parse_e_pen_line(e_line)
  if not d_trips or len(d_trips) < 4 or not epen or len(epen) < 4: continue
  ...
  records.append(rec)\<close>
\<close>

definition ind_block :: "string list \<Rightarrow> nat \<Rightarrow> pydict option" where
  "ind_block lines i =
     (case re_match IDENTITY_RE (lines ! i) of
        None \<Rightarrow> None
      | Some m \<Rightarrow>
          if int i - 1 < 0 \<or> length lines \<le> i + 1 then None
          else (let dt = parse_dscore_line (lines ! (i - 1));
                    d_trips = fst dt; tot = snd dt
                in case parse_e_pen_line (lines ! (i + 1)) of
                     None \<Rightarrow> None
                   | Some epen \<Rightarrow>
                       if d_trips = [] \<or> length d_trips < 4 \<or> epen = [] \<or> length epen < 4
                       then None
                       else Some (ind_record m d_trips tot epen)))"

definition ind_records :: "string list \<Rightarrow> pydict list" where
  "ind_records lines = List.map_filter (ind_block lines) [0..<length lines]"

text \<open>From the rows of the extracted tables to the records of \<^verbatim>\<open>parse_pdf\<close>.\<close>

definition parse_pdf_records :: "string list list \<Rightarrow> pydict list" where
  "parse_pdf_records raw = ind_records (build_lines raw)"

subsection \<open>Team script: the record loop of \<^verbatim>\<open>parse_pdf_team\<close>\<close>

definition is_team_hdr :: "string \<Rightarrow> bool" where
  "is_team_hdr line = (re_match TEAM_HDR line \<noteq> None)"

definition is_ath_hdr :: "string \<Rightarrow> bool" where
  "is_ath_hdr line = (re_match ATH_HDR line \<noteq> None)"

text \<open>
  The body of \<^verbatim>\<open>for idx, app in enumerate(APPARATUS)\<close>, on the record and the running total
  (\<open>i\<close> is \<^verbatim>\<open>idx\<close>, \<open>tot\<close> is \<^verbatim>\<open>total\<close>):
  \<^verbatim>\<open>if idx < k:
      D, S = ds_pairs[idx]; E, Pen = epen[idx]
      rec[f"{app}_D"] = D; rec[f"{app}_E"] = E; rec[f"{app}_Pen"] = Pen
      rec[f"{app}_Score"] = S
      total += S
  else:
      rec[f"{app}_D"] = float("nan"); rec[f"{app}_E"] = float("nan")
      rec[f"{app}_Pen"] = float("nan"); rec[f"{app}_Score"] = float("nan")
  rec[f"{app}_Rk"] = None\<close>
\<close>

definition team_set_app ::
  "(rat \<times> rat) list \<Rightarrow> (rat \<times> rat) list \<Rightarrow> nat \<Rightarrow> pydict \<times> rat \<Rightarrow> nat \<times> string
     \<Rightarrow> pydict \<times> rat" where
  "team_set_app ds_pairs epen k rt ia =
     (let rec = fst rt; tot = snd rt; i = fst ia; app = snd ia;
          rt1 = (if i < k
                 then (let D = fst (ds_pairs ! i); S = snd (ds_pairs ! i);
                           E = fst (epen ! i); Pen = snd (epen ! i)
                       in (rec(app @ ''_D'' \<mapsto> PFloat D, app @ ''_E'' \<mapsto> PFloat E,
                               app @ ''_Pen'' \<mapsto> PFloat Pen, app @ ''_Score'' \<mapsto> PFloat S),
                           tot + S))
                 else (rec(app @ ''_D'' \<mapsto> PNaN, app @ ''_E'' \<mapsto> PNaN,
                           app @ ''_Pen'' \<mapsto> PNaN, app @ ''_Score'' \<mapsto> PNaN),
                       tot))
      in ((fst rt1)(app @ ''_Rk'' \<mapsto> PNone), snd rt1))"

text \<open>
  \<^verbatim>\<open>k = min(len(ds_pairs), len(epen), 4)
  rec = {"Rank": ctx_rank, "Bib": bib, "Name": name, "NOC": ctx_noc}
  total = 0.0
  for idx, app in enumerate(APPARATUS): ...
  rec["Total"] = round(total, 3) if k > 0 else float("nan")\<close>
\<close>

definition team_record ::
  "int option \<Rightarrow> int \<Rightarrow> string \<Rightarrow> string \<Rightarrow> (rat \<times> rat) list \<Rightarrow> (rat \<times> rat) list \<Rightarrow> pydict" where
  "team_record ctx_rank bib name ctx_noc ds_pairs epen =
     (let k = min (length ds_pairs) (min (length epen) 4);
          rec0 = [''Rank'' \<mapsto> (case ctx_rank of None \<Rightarrow> PNone | Some r \<Rightarrow> PInt r),
                  ''Bib'' \<mapsto> PInt bib, ''Name'' \<mapsto> PStr name, ''NOC'' \<mapsto> PStr ctx_noc];
          rt = foldl (team_set_app ds_pairs epen k) (rec0, 0) (enumerate 0 APPARATUS)
      in (fst rt)(''Total'' \<mapsto> (if 0 < k then PFloat (round3 (snd rt)) else PNaN)))"

text \<open>
  The forward scan for the E/Pen tokens:
  \<^verbatim>\<open>while j < len(lines):
      nxt = lines[j]
      if ATH_HDR.match(nxt) or TEAM_HDR.match(nxt):
          break
      toks = floats_from(nxt)
      if toks:
          e_tokens.extend(toks)
      j += 1\<close>
  It returns the index it stops at and the tokens collected.
\<close>

function scan_e :: "string list \<Rightarrow> nat \<Rightarrow> string list \<Rightarrow> nat \<times> string list" where
  "scan_e lines j e_tokens =
     (if j < length lines
      then (let nxt = lines ! j
            in if is_ath_hdr nxt \<or> is_team_hdr nxt then (j, e_tokens)
               else scan_e lines (j + 1) (e_tokens @ floats_from nxt))
      else (j, e_tokens))"
  by pat_completeness auto
termination
  by (relation "measure (\<lambda>(lines, j, e_tokens). length lines - j)") auto

declare scan_e.simps [simp del]

lemma scan_e_ge: "j \<le> fst (scan_e lines j e_tokens)"
proof (induction lines j e_tokens rule: scan_e.induct)
  case (1 lines j e_tokens)
  show ?case
  proof (cases "j < length lines \<and> \<not> (is_ath_hdr (lines ! j) \<or> is_team_hdr (lines ! j))")
    case True
    then have "scan_e lines j e_tokens = scan_e lines (j + 1) (e_tokens @ floats_from (lines ! j))"
      by (subst scan_e.simps) (simp add: Let_def)
    moreover have "j + 1 \<le> fst (scan_e lines (j + 1) (e_tokens @ floats_from (lines ! j)))"
      using 1[OF _ refl] True by simp
    ultimately show ?thesis by simp
  next
    case False
    then have "scan_e lines j e_tokens = (j, e_tokens)"
      by (subst scan_e.simps) (auto simp: Let_def)
    then show ?thesis by simp
  qed
qed

text \<open>
  The state of the main loop: the line index \<^verbatim>\<open>i\<close>, the context \<^verbatim>\<open>ctx_rank\<close>, \<^verbatim>\<open>ctx_noc\<close> and
  the list \<^verbatim>\<open>rows\<close>.
\<close>

record team_state =
  idx :: nat
  ctx_rank :: "int option"
  ctx_noc :: "string option"
  rows :: "pydict list"

text \<open>The truth value of \<^verbatim>\<open>ctx_noc\<close> in \<^verbatim>\<open>if ma and ctx_noc\<close>: neither \<^verbatim>\<open>None\<close> nor empty.\<close>

definition truthy :: "string option \<Rightarrow> bool" where
  "truthy v = (case v of None \<Rightarrow> False | Some s \<Rightarrow> s \<noteq> [])"

text \<open>
  One round of \<^verbatim>\<open>while i < len(lines)\<close>:
  \<^verbatim>\<open>ln = lines[i]
  mt = TEAM_HDR.match(ln)
  if mt:
      ctx_rank = int(mt.group("trank")); ctx_noc = mt.group("noc")
      i += 1
      continue
  ma = ATH_HDR.match(ln)
  if ma and ctx_noc:
      bib = int(ma.group("bib")); name = ma.group("name").strip()
      trail = ma.group("trail") or ""
      ds_tokens = floats_from(trail)
      e_tokens = []
      j = i + 1
      while j < len(lines): ...
      ds_pairs = parse_ds_pairs(ds_tokens)
      epen = parse_e_pen(e_tokens, max_groups=4)
      ...
      rows.append(rec)
      i = j
      continue
  i += 1\<close>
\<close>

definition team_step :: "string list \<Rightarrow> team_state \<Rightarrow> error + team_state" where
  "team_step lines st =
     (let line = lines ! idx st
      in case re_match TEAM_HDR line of
           Some mt \<Rightarrow>
             Inr (st\<lparr>ctx_rank := Some (py_int (re_group mt ''trank'')),
                     ctx_noc := Some (re_group mt ''noc''),
                     idx := idx st + 1\<rparr>)
         | None \<Rightarrow>
             (case re_match ATH_HDR line of
                Some ma \<Rightarrow>
                  if truthy (ctx_noc st)
                  then (let bib = py_int (re_group ma ''bib'');
                            name = py_strip (re_group ma ''name'');
                            trail = re_group ma ''trail'';
                            ds_tokens = floats_from trail;
                            je = scan_e lines (idx st + 1) []
                        in case parse_ds_pairs ds_tokens of
                             Inl e \<Rightarrow> Inl e
                           | Inr ds_pairs \<Rightarrow>
                               (let epen = parse_e_pen (snd je) 4
                                in Inr (st\<lparr>rows := rows st @
                                             [team_record (ctx_rank st) bib name
                                                (the (ctx_noc st)) ds_pairs epen],
                                           idx := fst je\<rparr>)))
                  else Inr (st\<lparr>idx := idx st + 1\<rparr>)
              | None \<Rightarrow> Inr (st\<lparr>idx := idx st + 1\<rparr>)))"

lemma team_step_progress:
  "team_step lines st = Inr st' \<Longrightarrow> idx st < idx st'"
proof -
  assume a: "team_step lines st = Inr st'"
  have "idx st + 1 \<le> fst (scan_e lines (idx st + 1) [])" by (rule scan_e_ge)
  with a show ?thesis
    by (auto simp: team_step_def Let_def split: option.splits if_splits sum.splits)
qed

function team_loop :: "string list \<Rightarrow> team_state \<Rightarrow> error + team_state" where
  "team_loop lines st =
     (if idx st < length lines
      then (case team_step lines st of Inl e \<Rightarrow> Inl e | Inr st' \<Rightarrow> team_loop lines st')
      else Inr st)"
  by pat_completeness auto
termination
proof (relation "measure (\<lambda>(lines, st). length lines - idx st)", goal_cases)
  case 1 show ?case by simp
next
  case (2 lines st st')
  then have "idx st < idx st'" by (simp add: team_step_progress)
  with 2 show ?case by simp
qed

declare team_loop.simps [simp del]

text \<open>\<^verbatim>\<open>rows = []; ctx_rank, ctx_noc = None, None; i = 0\<close>, the loop, and the rows it leaves.\<close>

definition team_init :: team_state where
  "team_init = \<lparr>idx = 0, ctx_rank = None, ctx_noc = None, rows = []\<rparr>"

definition team_records :: "string list \<Rightarrow> error + pydict list" where
  "team_records lines =
     (case team_loop lines team_init of Inl e \<Rightarrow> Inl e | Inr st \<Rightarrow> Inr (rows st))"

definition parse_pdf_team_records :: "string list list \<Rightarrow> error + pydict list" where
  "parse_pdf_team_records raw = team_records (build_lines raw)"

text \<open>
  The loop cut off after \<open>n\<close> rounds: \<open>None\<close> when it would still be running then.  It is
  used to state how many rounds the loop needs.
\<close>

fun team_run :: "nat \<Rightarrow> string list \<Rightarrow> team_state \<Rightarrow> (error + team_state) option" where
  "team_run 0 lines st = (if idx st < length lines then None else Some (Inr st))"
| "team_run (Suc n) lines st =
     (if idx st < length lines
      then (case team_step lines st of Inl e \<Rightarrow> Some (Inl e) | Inr st' \<Rightarrow> team_run n lines st')
      else Some (Inr st))"

text \<open>The states the loop is in at the start of a round.\<close>

inductive team_reach :: "string list \<Rightarrow> team_state \<Rightarrow> bool" for lines where
  reach_init: "team_reach lines team_init"
| reach_step: "team_reach lines st \<Longrightarrow> idx st < length lines \<Longrightarrow> team_step lines st = Inr st'
               \<Longrightarrow> team_reach lines st'"

subsection \<open>Notions the statements about the patterns use\<close>

text \<open>The text a pattern matches when it is tried at position \<open>j\<close> of \<open>t\<close>, if it matches
  there.\<close>

definition match_at :: "rx \<Rightarrow> string \<Rightarrow> nat \<Rightarrow> string option" where
  "match_at r t j =
     map_option (\<lambda>st'. take (length t - j - length (fst (snd st'))) (drop j t))
                (rxm r Some (j, drop j t, []))"

text \<open>The pattern matches at no position from \<open>j\<close> on (the end of \<open>t\<close> included).\<close>

definition no_match_from :: "rx \<Rightarrow> string \<Rightarrow> nat \<Rightarrow> bool" where
  "no_match_from r t j = list_all (\<lambda>j'. match_at r t j' = None) [j..<Suc (length t)]"

text \<open>The groups of that match.\<close>

definition caps_at :: "rx \<Rightarrow> string \<Rightarrow> nat \<Rightarrow> caps option" where
  "caps_at r t j = map_option (\<lambda>st'. snd (snd st')) (rxm r Some (j, drop j t, []))"

text \<open>
  The left-to-right scan of \<open>t\<close> from position \<open>p\<close> for a pattern that matches no empty
  text: \<open>ms\<close> lists the matches as position, text and groups.  Each match is at the least
  position, from where the match before it ended (from \<open>p\<close> for the first), at which the pattern
  matches; after the last match the pattern matches nowhere.
\<close>

fun is_scan :: "rx \<Rightarrow> string \<Rightarrow> nat \<Rightarrow> (nat \<times> string \<times> caps) list \<Rightarrow> bool" where
  "is_scan r t p [] = no_match_from r t p"
| "is_scan r t p ((j, tx, c) # ms) =
     (p \<le> j \<and> j \<le> length t \<and> list_all (\<lambda>j'. match_at r t j' = None) [p..<j]
      \<and> match_at r t j = Some tx \<and> tx \<noteq> [] \<and> caps_at r t j = Some c
      \<and> is_scan r t (j + length tx) ms)"

text \<open>A number with three decimals as the Total is read: one or two digits, a point, three
  digits.\<close>

definition is_float3 :: "string \<Rightarrow> bool" where
  "is_float3 tx =
     (case rev tx of
        d3 # d2 # d1 # dot # ds \<Rightarrow>
          is_digit d3 \<and> is_digit d2 \<and> is_digit d1 \<and> dot = CHR ''.''
          \<and> ds \<noteq> [] \<and> length ds \<le> 2 \<and> list_all is_digit ds
      | _ \<Rightarrow> False)"

text \<open>The three-decimal number that starts at position \<open>j\<close> of \<open>t\<close>: the six characters
  from \<open>j\<close> on when they are one, else the five characters when they are one.\<close>

definition float3_at :: "string \<Rightarrow> nat \<Rightarrow> string option" where
  "float3_at t j =
     (if is_float3 (take 6 (drop j t)) then Some (take 6 (drop j t))
      else if is_float3 (take 5 (drop j t)) then Some (take 5 (drop j t))
      else None)"

text \<open>Position \<open>i\<close> of \<open>s\<close> holds a digit and has \<^verbatim>\<open>\d\.\d{3}\<close> directly before it.\<close>

definition glue_at :: "string \<Rightarrow> nat \<Rightarrow> bool" where
  "glue_at s i =
     (5 \<le> i \<and> i < length s \<and> is_digit (s ! (i - 5)) \<and> s ! (i - 4) = CHR ''.''
      \<and> is_digit (s ! (i - 3)) \<and> is_digit (s ! (i - 2)) \<and> is_digit (s ! (i - 1))
      \<and> is_digit (s ! i))"

text \<open>A value that is there: not missing, not \<^verbatim>\<open>None\<close>, not the unknown marker.\<close>

definition known :: "pyval option \<Rightarrow> bool" where
  "known v = (case v of None \<Rightarrow> False | Some PNone \<Rightarrow> False | Some PNaN \<Rightarrow> False | Some _ \<Rightarrow> True)"

text \<open>A record that has a value under every column of \<^verbatim>\<open>cols\<close>.\<close>

definition complete_record :: "pydict \<Rightarrow> bool" where
  "complete_record rec = list_all (\<lambda>c. known (rec c)) cols"

text \<open>The first index from \<open>j\<close> on whose line is a team header or an athlete header; the
  number of lines when there is none.\<close>

definition next_hdr :: "string list \<Rightarrow> nat \<Rightarrow> nat" where
  "next_hdr lines j =
     j + length (takeWhile (\<lambda>l. \<not> (is_ath_hdr l \<or> is_team_hdr l)) (drop j lines))"

text \<open>The lines at the indices \<open>a \<le> i < b\<close>.\<close>

definition lines_between :: "string list \<Rightarrow> nat \<Rightarrow> nat \<Rightarrow> string list" where
  "lines_between lines a b = take (b - a) (drop a lines)"




text \<open>The states at the start of the rounds of the loop, for the first \<open>n\<close> rounds at most.\<close>

fun team_trace :: "nat \<Rightarrow> string list \<Rightarrow> team_state \<Rightarrow> team_state list" where
  "team_trace 0 lines st = []"
| "team_trace (Suc n) lines st =
     (if idx st < length lines
      then st # (case team_step lines st of Inl e \<Rightarrow> [] | Inr st' \<Rightarrow> team_trace n lines st')
      else [])"

text \<open>The round that starts in \<open>st\<close> appends a record: its current line initiates one.\<close>

definition initiates :: "string list \<Rightarrow> team_state \<Rightarrow> bool" where
  "initiates lines st =
     (case team_step lines st of
        Inl e \<Rightarrow> False
      | Inr st' \<Rightarrow> length (rows st') = length (rows st) + 1)"

text \<open>The matcher has moved from state \<open>st\<close> to state \<open>st'\<close> by reading \<open>n\<close> characters.\<close>

definition adv :: "mstate \<Rightarrow> mstate \<Rightarrow> bool" where
  "adv st st' = (\<exists>n\<le>length (fst (snd st)). fst st' = fst st + n \<and> fst (snd st') = drop n (fst (snd st)))"

subsection \<open>\<^verbatim>\<open>events.py\<close>: aligning the columns of the page tables\<close>

text \<open>
  A data frame as the alignment step sees it: the column labels in their order, and the
  rows, each the list of the cells under those labels in the same order.
\<close>

record frame =
  columns :: "string list"
  cells :: "pyval list list"

text \<open>
  \<^verbatim>\<open>master_cols = []
  for d in all_rows:
      for c in d.columns:
          if c not in master_cols:
              master_cols.append(c)\<close>
\<close>

definition add_col :: "string list \<Rightarrow> string \<Rightarrow> string list" where
  "add_col master c = (if c \<notin> set master then master @ [c] else master)"

definition master_cols :: "frame list \<Rightarrow> string list" where
  "master_cols all_rows = foldl (\<lambda>master d. foldl add_col master (columns d)) [] all_rows"

text \<open>The position of the first column with label \<open>c\<close>.\<close>

definition col_pos :: "string list \<Rightarrow> string \<Rightarrow> nat" where
  "col_pos cs c = length (takeWhile (\<lambda>x. x \<noteq> c) cs)"

text \<open>
  \<^verbatim>\<open>d.reindex(columns=labels)\<close> of pandas.  When \<open>labels\<close> are the labels \<open>d\<close> has, the result
  is \<open>d\<close>.  Otherwise, when \<open>d\<close> has a label twice, pandas raises \<^verbatim>\<open>ValueError\<close> (cannot
  reindex on an axis with duplicate labels), and else the result has the columns \<open>labels\<close>:
  under a label of \<open>d\<close> the cells \<open>d\<close> has there, under any other label \<^verbatim>\<open>NaN\<close> in every row.
\<close>

definition reindex :: "frame \<Rightarrow> string list \<Rightarrow> error + frame" where
  "reindex d labels =
     (if labels = columns d then Inr d
      else if \<not> distinct (columns d) then Inl ValueError
      else Inr \<lparr>columns = labels,
                cells = map (\<lambda>row. map (\<lambda>c. if c \<in> set (columns d)
                                               then row ! col_pos (columns d) c else PNaN) labels)
                            (cells d)\<rparr>)"

text \<open>\<^verbatim>\<open>normed = [d.reindex(columns=master_cols) for d in all_rows]\<close>: the first frame that
  cannot be reindexed raises.\<close>

fun reindex_all :: "frame list \<Rightarrow> string list \<Rightarrow> error + frame list" where
  "reindex_all [] labels = Inr []"
| "reindex_all (d # ds) labels =
     (case reindex d labels of
        Inl e \<Rightarrow> Inl e
      | Inr n \<Rightarrow> (case reindex_all ds labels of Inl e \<Rightarrow> Inl e | Inr ns \<Rightarrow> Inr (n # ns)))"

text \<open>
  \<^verbatim>\<open>pd.concat(normed, ignore_index=True)\<close> of pandas, on frames that all have the same
  labels (as the frames of \<^verbatim>\<open>normed\<close> have): these labels, and the rows of the frames one
  after the other.  On an empty list pandas raises \<^verbatim>\<open>ValueError\<close> (no objects to
  concatenate).
\<close>

definition pd_concat :: "frame list \<Rightarrow> error + frame" where
  "pd_concat fs =
     (case fs of
        [] \<Rightarrow> Inl ValueError
      | f # _ \<Rightarrow> Inr \<lparr>columns = columns f, cells = concat (map cells fs)\<rparr>)"

text \<open>
  Step 3 of \<^verbatim>\<open>parse_events_pdf\<close>, with the test before it:
  \<^verbatim>\<open>if not all_rows:
      print("No tables extracted.")
      return
  master_cols = [] ...
  normed = [d.reindex(columns=master_cols) for d in all_rows]
  out_df = pd.concat(normed, ignore_index=True)\<close>
  The result is \<open>None\<close> when the function returns without a frame.
\<close>

definition align_columns :: "frame list \<Rightarrow> error + frame option" where
  "align_columns all_rows =
     (if all_rows = [] then Inr None
      else (case reindex_all all_rows (master_cols all_rows) of
              Inl e \<Rightarrow> Inl e
            | Inr normed \<Rightarrow>
                (case pd_concat normed of Inl e \<Rightarrow> Inl e | Inr out_df \<Rightarrow> Inr (Some out_df))))"

text \<open>Every row of the frame has a cell for every column.\<close>

definition wf_frame :: "frame \<Rightarrow> bool" where
  "wf_frame d = list_all (\<lambda>row. length row = length (columns d)) (cells d)"

text \<open>The rows of \<open>d\<close> laid out under \<open>labels\<close>: the cell \<open>d\<close> has under a label, the unknown
  marker under a label \<open>d\<close> lacks.\<close>

definition laid_out :: "string list \<Rightarrow> frame \<Rightarrow> pyval list list" where
  "laid_out labels d =
     map (\<lambda>row. map (\<lambda>c. if c \<in> set (columns d) then row ! col_pos (columns d) c else PNaN) labels)
         (cells d)"

subsection \<open>The numeric pass over the columns\<close>

text \<open>
  A number as a pandas column holds it: an integer, a float, or \<^verbatim>\<open>NaN\<close>.
\<close>

datatype numv = NInt int | NFloat rat | NNaN

text \<open>
  \<^verbatim>\<open>pd.to_numeric(column, errors=...)\<close> of pandas.  How pandas reads a text as a number is the
  parameter \<open>parse\<close> (\<open>None\<close>: the text is no number), so that nothing below depends on it.  A
  cell that is a number is that number; \<^verbatim>\<open>None\<close> and \<^verbatim>\<open>NaN\<close> are \<^verbatim>\<open>NaN\<close>.
\<close>

definition num_of :: "(string \<Rightarrow> numv option) \<Rightarrow> pyval \<Rightarrow> numv option" where
  "num_of parse v =
     (case v of
        PStr s \<Rightarrow> parse s
      | PInt i \<Rightarrow> Some (NInt i)
      | PFloat x \<Rightarrow> Some (NFloat x)
      | PNaN \<Rightarrow> Some NNaN
      | PNone \<Rightarrow> Some NNaN)"

definition is_int :: "numv \<Rightarrow> bool" where
  "is_int n = (case n of NInt _ \<Rightarrow> True | _ \<Rightarrow> False)"

definition to_float :: "numv \<Rightarrow> pyval" where
  "to_float n = (case n of NInt i \<Rightarrow> PFloat (of_int i) | NFloat x \<Rightarrow> PFloat x | NNaN \<Rightarrow> PNaN)"

text \<open>A numeric column has one type: integers when every value is one, floats otherwise.\<close>

definition as_column :: "numv list \<Rightarrow> pyval list" where
  "as_column ns =
     (if list_all is_int ns then map (\<lambda>n. case n of NInt i \<Rightarrow> PInt i | _ \<Rightarrow> PNaN) ns
      else map to_float ns)"

text \<open>\<^verbatim>\<open>errors="coerce"\<close>: a cell that is no number becomes \<^verbatim>\<open>NaN\<close>.\<close>

definition to_numeric_coerce :: "(string \<Rightarrow> numv option) \<Rightarrow> pyval list \<Rightarrow> pyval list" where
  "to_numeric_coerce parse col =
     as_column (map (\<lambda>v. case num_of parse v of Some n \<Rightarrow> n | None \<Rightarrow> NNaN) col)"

text \<open>\<^verbatim>\<open>errors="ignore"\<close>: when a cell is no number the column is returned as it is.\<close>

definition to_numeric_ignore :: "(string \<Rightarrow> numv option) \<Rightarrow> pyval list \<Rightarrow> pyval list" where
  "to_numeric_ignore parse col =
     (if list_all (\<lambda>v. num_of parse v \<noteq> None) col then to_numeric_coerce parse col else col)"

text \<open>
  A table by columns: the labels, each with the cells of its column.  The loops
  \<^verbatim>\<open>for c in df.columns:
      if c in keep: continue
      df[c] = pd.to_numeric(df[c], errors=...)\<close>
  replace every column whose label is not in \<open>keep\<close> by its conversion (the labels of the
  frames that reach the loops are distinct).
\<close>

type_synonym table = "(string \<times> pyval list) list"

definition numeric_pass :: "(pyval list \<Rightarrow> pyval list) \<Rightarrow> string list \<Rightarrow> table \<Rightarrow> table" where
  "numeric_pass conv keep df =
     map (\<lambda>lc. if fst lc \<in> set keep then lc else (fst lc, conv (snd lc))) df"

text \<open>\<^verbatim>\<open>events.py\<close>, step 4 of \<^verbatim>\<open>parse_events_pdf\<close>:
  \<^verbatim>\<open>if c in ("Event", "Name"): continue\<close> and \<^verbatim>\<open>errors="ignore"\<close>.\<close>

definition events_numeric_pass :: "(string \<Rightarrow> numv option) \<Rightarrow> table \<Rightarrow> table" where
  "events_numeric_pass parse df = numeric_pass (to_numeric_ignore parse) [''Event'', ''Name''] df"

text \<open>\<^verbatim>\<open>individual_allaround.py\<close>, the numeric cleanup of \<^verbatim>\<open>parse_pdf\<close>:
  \<^verbatim>\<open>if c in ("Name", "NOC"): continue\<close> and \<^verbatim>\<open>errors="coerce"\<close>.\<close>

definition individual_numeric_cleanup :: "(string \<Rightarrow> numv option) \<Rightarrow> table \<Rightarrow> table" where
  "individual_numeric_cleanup parse df =
     numeric_pass (to_numeric_coerce parse) [''Name'', ''NOC''] df"

text \<open>A reading of texts as numbers for the examples: the decimal numbers \<^verbatim>\<open>IS_FLOAT\<close>
  matches, as floats.\<close>

definition decimal_parse :: "string \<Rightarrow> numv option" where
  "decimal_parse s = (if is_float s then Some (NFloat (decimal_value s)) else None)"

section \<open>Evaluation rules\<close>

text \<open>Equations that run the matcher and the string functions on explicit inputs.  The
  matcher's equations fire only on an explicit state, so a continuation is never unfolded
  before it is called.\<close>

lemma rep_eval:
  "rep h f True lo k (p, s, c) =
     (if h = 0 then (if lo = 0 then k (p, s, c) else None)
      else (case f (guard p (rep (h - 1) f True (lo - 1) k)) (p, s, c) of
              Some r \<Rightarrow> Some r
            | None \<Rightarrow> if lo = 0 then k (p, s, c) else None))"
  "rep h f False lo k (p, s, c) =
     (if h = 0 then (if lo = 0 then k (p, s, c) else None)
      else (case (if lo = 0 then k (p, s, c) else None) of
              Some r \<Rightarrow> Some r
            | None \<Rightarrow> f (guard p (rep (h - 1) f False (lo - 1) k)) (p, s, c)))"
  by (cases h; simp add: rep.simps cong: option.case_cong)+

lemma rxm_eval:
  "rxm (Cls P) k (p, [], c) = None"
  "rxm (Cls P) k (p, x # xs, c) = (if P x then k (Suc p, xs, c) else None)"
  "rxm Bol k (p, s, c) = (if p = 0 then k (p, s, c) else None)"
  "rxm Eol k (p, [], c) = k (p, [], c)"
  "rxm Eol k (p, x # xs, c) = (if x = CHR 0x0A \<and> xs = [] then k (p, x # xs, c) else None)"
  "rxm Eps k (p, s, c) = k (p, s, c)"
  "rxm (Seq a b) k (p, s, c) = rxm a (rxm b k) (p, s, c)"
  "rxm (Rep g lo None r) k (p, s, c) = rep (lo + length s) (rxm r) g lo k (p, s, c)"
  "rxm (Rep g lo (Some h) r) k (p, s, c) = rep h (rxm r) g lo k (p, s, c)"
  "rxm (Grp n r) k (p, s, c) = rxm r (grp_end n (p, s, c) k) (p, s, c)"
  "grp_end n (p, s, c) k (p', s', c') = k (p', s', (n, take (p' - p) s) # c')"
  "guard p k (p', s', c') = (if p < p' then k (p', s', c') else None)"
  by (simp_all add: rxm.simps grp_end_def guard_def)

lemmas rx_eval = rxm_eval rep_eval lit_def rx_star_def rx_plus_def rx_opt_def rx_times_def
  re_match_def is_digit_def is_space_def is_upper_def is_lower_def name_char_def
  score3_def rk_paren_def

lemmas str_eval = py_split.simps py_strip_def norm_str_def is_space_def

lemmas num_eval = decimal_value_def nat_of_digits_def digit_val_def starts_minus_def
  py_strip_def is_space_def Let_def

lemma is_float_eval:
  "is_float ''5.300''" "is_float ''13.233''" "is_float ''5.600''" "is_float ''14.100''"
  "is_float ''8.500''" "is_float ''-0.100''" "is_float ''9.000''" "is_float ''8.000''"
  "\<not> is_float ''DNS''"
  by (simp_all add: is_float_def IS_FLOAT_def rx_eval)

section \<open>The Line Normalizer (C5)\<close>

lemma py_split_Nil [simp]: "py_split [] = []"
  by (simp add: py_split.simps)

lemma py_split_space: "is_space c \<Longrightarrow> py_split (c # cs) = py_split cs"
  by (simp add: py_split.simps[of "c # cs"] py_split.simps[of cs])

lemma py_split_nonspace:
  "\<not> is_space c \<Longrightarrow>
   py_split (c # cs) = (c # takeWhile (\<lambda>x. \<not> is_space x) cs)
                        # py_split (dropWhile (\<lambda>x. \<not> is_space x) cs)"
  by (simp add: py_split.simps[of "c # cs"])

lemma py_split_dropWhile: "py_split (dropWhile is_space s) = py_split s"
  by (induction s) (simp_all add: py_split_space)

lemma py_split_append_space:
  "is_space sp \<Longrightarrow> py_split (a @ sp # b) = py_split a @ py_split b"
proof (induction a rule: py_split.induct)
  case (1 s)
  show ?case
  proof (cases "dropWhile is_space s")
    case Nil
    then have all: "\<forall>x\<in>set s. is_space x" by (simp add: dropWhile_eq_Nil_conv)
    then have "dropWhile is_space (s @ sp # b) = dropWhile is_space b"
      using 1(2) by (simp add: dropWhile_append2)
    then have "py_split (s @ sp # b) = py_split b"
      by (metis py_split_dropWhile)
    moreover have "py_split s = []" by (subst py_split.simps) (simp only: Nil list.case)
    ultimately show ?thesis by simp
  next
    case (Cons c cs)
    then have nc: "\<not> is_space c" using hd_dropWhile[of is_space s] by auto
    have s_eq: "s = takeWhile is_space s @ c # cs"
      using Cons takeWhile_dropWhile_id[of is_space s] by simp
    have "dropWhile is_space (takeWhile is_space s @ (c # cs @ sp # b))
          = dropWhile is_space (c # cs @ sp # b)"
      by (rule dropWhile_append2) (rule set_takeWhileD[THEN conjunct2])
    also have "\<dots> = c # cs @ sp # b"
      using nc by simp
    finally have "dropWhile is_space ((takeWhile is_space s @ c # cs) @ sp # b) = c # cs @ sp # b"
      by simp
    then have d: "dropWhile is_space (s @ sp # b) = c # cs @ sp # b"
      using s_eq by simp
    have tw: "takeWhile (\<lambda>x. \<not> is_space x) (cs @ sp # b) = takeWhile (\<lambda>x. \<not> is_space x) cs"
      using 1(2) by (induction cs) auto
    have dw: "dropWhile (\<lambda>x. \<not> is_space x) (cs @ sp # b) = dropWhile (\<lambda>x. \<not> is_space x) cs @ sp # b"
      using 1(2) by (induction cs) auto
    have "py_split (s @ sp # b) = py_split (c # cs @ sp # b)"
      using d py_split_dropWhile by metis
    also have "\<dots> = (c # takeWhile (\<lambda>x. \<not> is_space x) cs)
                       # py_split (dropWhile (\<lambda>x. \<not> is_space x) cs @ sp # b)"
      using nc by (simp add: py_split_nonspace tw dw)
    also have "py_split (dropWhile (\<lambda>x. \<not> is_space x) cs @ sp # b)
               = py_split (dropWhile (\<lambda>x. \<not> is_space x) cs) @ py_split b"
      using 1(1)[OF Cons 1(2)] .
    finally show ?thesis
      using Cons by (simp add: py_split.simps[of s])
  qed
qed

lemma py_join_Cons_Cons: "py_join sep ((c # w) # rest) = c # py_join sep (w # rest)"
  by (cases rest) simp_all

lemma py_split_nonempty:
  "\<exists>x\<in>set s. \<not> is_space x \<Longrightarrow> py_split s \<noteq> []"
proof -
  assume "\<exists>x\<in>set s. \<not> is_space x"
  then have "dropWhile is_space s \<noteq> []" by (simp add: dropWhile_eq_Nil_conv)
  then show ?thesis by (cases "dropWhile is_space s") (auto simp: py_split.simps[of s])
qed

lemma sub_ws_words:
  "s = [] \<or> \<not> is_space (last s) \<Longrightarrow>
   sub_ws s = (if s \<noteq> [] \<and> is_space (hd s) then '' '' else []) @ py_join '' '' (py_split s)"
proof (induction s rule: sub_ws.induct)
  case 1
  show ?case by simp
next
  case (2 c cs)
  show ?case
  proof (cases "is_space c")
    case True
    let ?d = "dropWhile is_space cs"
    from 2(3) True have ne: "cs \<noteq> []" "\<not> is_space (last cs)" by (auto split: if_splits)
    then have dne: "?d \<noteq> []" by (metis dropWhile_eq_Nil_conv last_in_set)
    then have hd: "\<not> is_space (hd ?d)" using hd_dropWhile by blast
    have lst: "\<not> is_space (last ?d)" using ne dne
      by (metis last_appendR takeWhile_dropWhile_id)
    have "sub_ws ?d = py_join '' '' (py_split ?d)"
      using 2(1)[OF True] dne hd lst by simp
    then show ?thesis using True
      by (simp add: py_split_space py_split_dropWhile)
  next
    case False
    show ?thesis
    proof (cases cs)
      case Nil
      then show ?thesis using False by (simp add: py_split_nonspace)
    next
      case (Cons d ds)
      with 2(3) have g: "cs = [] \<or> \<not> is_space (last cs)" by simp
      note IH = 2(2)[OF False g]
      show ?thesis
      proof (cases "is_space d")
        case True
        have "\<exists>x\<in>set cs. \<not> is_space x" using g Cons by (metis last_in_set list.distinct(1))
        then have "py_split cs \<noteq> []" by (rule py_split_nonempty)
        then obtain w ws where pw: "py_split cs = w # ws" by (cases "py_split cs") auto
        have "py_split (c # cs) = [c] # py_split cs"
          using False True Cons by (simp add: py_split_nonspace)
        then show ?thesis using IH True Cons False pw by simp
      next
        case nd: False
        have "py_split (c # cs) = (c # d # takeWhile (\<lambda>x. \<not> is_space x) ds)
                                   # py_split (dropWhile (\<lambda>x. \<not> is_space x) ds)"
          using False nd Cons by (simp add: py_split_nonspace)
        moreover have "py_split cs = (d # takeWhile (\<lambda>x. \<not> is_space x) ds)
                                   # py_split (dropWhile (\<lambda>x. \<not> is_space x) ds)"
          using nd Cons by (simp add: py_split_nonspace)
        ultimately show ?thesis using IH nd Cons False
          by (simp add: py_join_Cons_Cons)
      qed
    qed
  qed
qed

lemma py_split_rstrip: "py_split (rev (dropWhile is_space (rev s))) = py_split s"
proof (induction s rule: rev_induct)
  case Nil
  show ?case by simp
next
  case (snoc z y)
  show ?case
  proof (cases "is_space z")
    case True
    have "py_split (y @ [z]) = py_split y @ py_split []"
      using py_split_append_space[OF True, of y "[]"] by simp
    then show ?thesis using True snoc by simp
  next
    case False
    then show ?thesis by simp
  qed
qed

lemma py_split_strip: "py_split (py_strip s) = py_split s"
  by (simp add: py_strip_def py_split_rstrip py_split_dropWhile)

lemma py_strip_ends:
  "py_strip s = [] \<or> (\<not> is_space (hd (py_strip s)) \<and> \<not> is_space (last (py_strip s)))"
proof (cases "py_strip s = []")
  case True then show ?thesis by simp
next
  case False
  let ?d = "dropWhile is_space s"
  let ?r = "dropWhile is_space (rev ?d)"
  from False have rne: "?r \<noteq> []" by (simp add: py_strip_def)
  then have "\<not> is_space (hd ?r)" using hd_dropWhile by blast
  then have l: "\<not> is_space (last (py_strip s))" using rne by (simp add: py_strip_def last_rev)
  have dne: "?d \<noteq> []"
  proof
    assume "?d = []"
    then have "?r = []" by (simp only: rev.simps dropWhile.simps)
    with rne show False by blast
  qed
  then have hdd: "\<not> is_space (hd ?d)" using hd_dropWhile by blast
  have "rev ?d = takeWhile is_space (rev ?d) @ ?r" by simp
  then have "?d = rev ?r @ rev (takeWhile is_space (rev ?d))"
    by (metis rev_append rev_rev_ident)
  then have "hd ?d = hd (rev ?r)" using rne by (metis hd_append2 rev_is_Nil_conv)
  then have "\<not> is_space (hd (py_strip s))" using hdd by (simp add: py_strip_def)
  with l show ?thesis by simp
qed

lemma norm_str_words: "norm_str s = py_join '' '' (py_split s)"
proof -
  have "sub_ws (py_strip s) = py_join '' '' (py_split (py_strip s))"
    using sub_ws_words[of "py_strip s"] py_strip_ends[of s] by auto
  then show ?thesis by (simp add: norm_str_def py_split_strip)
qed

lemma py_split_join:
  "py_split (py_join '' '' parts) = concat (map py_split parts)"
proof (induction "'' ''" parts rule: py_join.induct)
  case (3 x y ys)
  have "is_space (CHR '' '')" by (simp add: is_space_def)
  from py_split_append_space[OF this, of x "py_join '' '' (y # ys)"] 3
  show ?case by simp
qed simp_all

lemma py_split_word:
  "w \<noteq> [] \<Longrightarrow> \<forall>x\<in>set w. \<not> is_space x \<Longrightarrow> py_split w = [w]"
proof -
  assume ne: "w \<noteq> []" and ns: "\<forall>x\<in>set w. \<not> is_space x"
  then obtain c cs where w: "w = c # cs" by (cases w) auto
  have tw: "takeWhile (\<lambda>x. \<not> is_space x) cs = cs"
    using ns w by (simp add: takeWhile_eq_all_conv)
  have dw: "dropWhile (\<lambda>x. \<not> is_space x) cs = []"
    using ns w by (simp add: dropWhile_eq_Nil_conv)
  have nc: "\<not> is_space c" using ns w by simp
  show ?thesis unfolding w py_split_nonspace[OF nc] tw dw by simp
qed

lemma py_split_words:
  "w \<in> set (py_split s) \<Longrightarrow> w \<noteq> [] \<and> (\<forall>x\<in>set w. \<not> is_space x)"
proof (induction s rule: py_split.induct)
  case (1 s)
  show ?case
  proof (cases "dropWhile is_space s")
    case Nil
    then have "py_split s = []" by (subst py_split.simps) (simp only: list.case)
    with 1(2) show ?thesis by simp
  next
    case (Cons c cs)
    then have nc: "\<not> is_space c" using hd_dropWhile[of is_space s] by auto
    have ps: "py_split s = (c # takeWhile (\<lambda>x. \<not> is_space x) cs)
                   # py_split (dropWhile (\<lambda>x. \<not> is_space x) cs)"
      by (subst py_split.simps) (simp only: Cons list.case)
    from 1(2) ps consider "w = c # takeWhile (\<lambda>x. \<not> is_space x) cs"
      | "w \<in> set (py_split (dropWhile (\<lambda>x. \<not> is_space x) cs))" by auto
    then show ?thesis
    proof cases
      case 1
      then show ?thesis using nc by (auto dest: set_takeWhileD)
    next
      case 2
      then show ?thesis using 1(1)[OF Cons] by blast
    qed
  qed
qed

lemma concat_py_split_words:
  "\<forall>w\<in>set ws. w \<noteq> [] \<and> (\<forall>x\<in>set w. \<not> is_space x) \<Longrightarrow>
   concat (map py_split ws) = ws"
  by (induction ws) (simp_all add: py_split_word)

lemma py_split_norm_str: "py_split (norm_str s) = py_split s"
  using concat_py_split_words[of "py_split s"] py_split_words[of _ s]
  by (simp add: norm_str_words py_split_join)

text \<open>
  C5.  For every row of raw cells, the Line Normalizer drops the cells whose trimmed text
  is empty, \<^verbatim>\<open>None\<close> or \<^verbatim>\<open>nan\<close>, and what it returns is the words of the surviving cells
  (their maximal runs without white space), in order, joined by single blanks: cells
  joined by one blank, inner white space collapsed to one blank, nothing at either end.
  In particular the cells \<^verbatim>\<open>["", "12", "  SMITH   Jane ", "USA", "None"]\<close> give
  \<^verbatim>\<open>"12 SMITH Jane USA"\<close>.
\<close>

theorem collapse_row_words:
  "collapse_row row =
     py_join '' '' (concat (map py_split [x \<leftarrow> row. py_strip x \<notin> set placeholders]))
   \<and> collapse_row ['''', ''12'', ''  SMITH   Jane '', ''USA'', ''None''] = ''12 SMITH Jane USA''"
proof
  show "collapse_row row =
     py_join '' '' (concat (map py_split [x \<leftarrow> row. py_strip x \<notin> set placeholders]))"
    by (simp add: collapse_row_def norm_str_words py_split_join)
  show "collapse_row ['''', ''12'', ''  SMITH   Jane '', ''USA'', ''None''] = ''12 SMITH Jane USA''"
    by (simp add: collapse_row_def norm_str_def py_strip_def placeholders_def is_space_def)
qed

theorem collapse_row_words_witness:
  "collapse_row [''nan'', '' 7'', ''LEE  Ann'', '' ''] = ''7 LEE Ann''"
  using collapse_row_words[of "[''nan'', '' 7'', ''LEE  Ann'', '' '']"]
  by (simp add: str_eval placeholders_def)

section \<open>Pairing the D/Score tokens (C10)\<close>

lemma float_list_ok:
  "\<forall>t\<in>set ts. is_float t \<Longrightarrow> float_list ts = Inr (map decimal_value ts)"
  by (induction ts) (simp_all add: py_float_def)

lemma ds_loop_map:
  "length pairs < 4 \<Longrightarrow>
   ds_loop vals i pairs =
     pairs @ map (\<lambda>j. (vals ! (i + 2 * j), vals ! (i + 2 * j + 1)))
                 [0..<min (4 - length pairs) ((length vals - i) div 2)]"
proof (induction vals i pairs rule: ds_loop.induct)
  case (1 vals i pairs)
  let ?f = "\<lambda>i j. (vals ! (i + 2 * j), vals ! (i + 2 * j + 1))"
  show ?case
  proof (cases "i + 1 < length vals")
    case False
    then have "(length vals - i) div 2 = 0" by simp
    then show ?thesis using False by (subst ds_loop.simps) simp
  next
    case True
    let ?p = "pairs @ [(vals ! i, vals ! (i + 1))]"
    define m where "m = (length vals - (i + 2)) div 2"
    have m: "(length vals - i) div 2 = Suc m" "(length vals - (i + 2)) div 2 = m"
      using True unfolding m_def by presburger+
    show ?thesis
    proof (cases "length ?p = 4")
      case eq: True
      then have "4 - length pairs = 1" by simp
      then have "min (4 - length pairs) ((length vals - i) div 2) = 1" using m by simp
      then show ?thesis using True eq by (subst ds_loop.simps) (simp add: Let_def)
    next
      case ne: False
      with 1(2) have lt: "length ?p < 4" by simp
      from 1(2) ne obtain q where q: "4 - length pairs = Suc q" "4 - length ?p = q"
        by (cases "4 - length pairs") auto
      have IH: "ds_loop vals (i + 2) ?p =
          ?p @ map (?f (i + 2)) [0..<min (4 - length ?p) ((length vals - (i + 2)) div 2)]"
        using 1(1)[OF True refl ne lt] .
      have "map (?f i) [0..<min (Suc q) (Suc m)] = ?f i 0 # map (?f (i + 2)) [0..<min q m]"
        by (simp add: upt_conv_Cons map_Suc_upt[symmetric] del: upt_Suc)
      then have "pairs @ map (?f i) [0..<min (4 - length pairs) ((length vals - i) div 2)]
           = ?p @ map (?f (i + 2)) [0..<min (4 - length ?p) ((length vals - (i + 2)) div 2)]"
        using q m by simp
      then show ?thesis using True ne IH by (subst ds_loop.simps) (simp add: Let_def)
    qed
  qed
qed

lemma ds_loop_0:
  "ds_loop vals 0 [] = map (\<lambda>j. (vals ! (2 * j), vals ! (2 * j + 1))) [0..<min 4 (length vals div 2)]"
  using ds_loop_map[of "[]" vals 0] by simp

text \<open>
  C10.  On tokens that are numbers (what \<^verbatim>\<open>floats_from\<close> hands over), \<^verbatim>\<open>parse_ds_pairs\<close>
  does not raise; it pairs the tokens in order, (token 0, token 1), (token 2, token 3),
  and so on, and returns \<open>min 4 (length tokens div 2)\<close> pairs: never more than four, and a
  last token without a partner is dropped, so \<open>2 * n + 1\<close> tokens with \<open>n < 4\<close> give
  exactly \<open>n\<close> pairs.
\<close>

theorem parse_ds_pairs_spec:
  assumes "\<forall>t\<in>set tokens. is_float t"
  shows "\<exists>ps. parse_ds_pairs tokens = Inr ps
            \<and> length ps = min 4 (length tokens div 2)
            \<and> (\<forall>j<length ps. ps ! j = (decimal_value (tokens ! (2 * j)),
                                      decimal_value (tokens ! (2 * j + 1))))
            \<and> (\<forall>n<4. length tokens = 2 * n + 1 \<longrightarrow> length ps = n)"
proof -
  let ?vals = "map decimal_value tokens"
  let ?ps = "ds_loop ?vals 0 []"
  have p: "parse_ds_pairs tokens = Inr ?ps"
    using assms by (simp add: parse_ds_pairs_def float_list_ok)
  have len: "length ?ps = min 4 (length tokens div 2)"
    by (simp add: ds_loop_0)
  have nth: "\<forall>j<length ?ps. ?ps ! j = (decimal_value (tokens ! (2 * j)),
                                      decimal_value (tokens ! (2 * j + 1)))"
  proof (intro allI impI)
    fix j assume "j < length ?ps"
    then have j: "j < min 4 (length tokens div 2)" using len by simp
    then have "2 * j + 1 < length tokens" by auto
    then show "?ps ! j = (decimal_value (tokens ! (2 * j)), decimal_value (tokens ! (2 * j + 1)))"
      using j by (simp add: ds_loop_0)
  qed
  have odd: "\<forall>n<4. length tokens = 2 * n + 1 \<longrightarrow> length ?ps = n"
    using len by auto
  from p len nth odd show ?thesis by blast
qed

theorem parse_ds_pairs_spec_witness:
  "is_float ''5.300'' \<and> is_float ''13.233'' \<and> is_float ''5.600''
   \<and> parse_ds_pairs [''5.300'', ''13.233'', ''5.600''] = Inr [(53 / 10, 13233 / 1000)]"
proof -
  let ?toks = "[''5.300'', ''13.233'', ''5.600'']"
  have h: "\<forall>t\<in>set ?toks. is_float t" by (simp add: is_float_eval)
  from parse_ds_pairs_spec[OF h] obtain ps where ps: "parse_ds_pairs ?toks = Inr ps"
    "length ps = min 4 (length ?toks div 2)"
    "\<forall>j<length ps. ps ! j = (decimal_value (?toks ! (2 * j)), decimal_value (?toks ! (2 * j + 1)))"
    by blast
  from ps(2) have l: "length ps = 1" by simp
  with ps(3) have "ps ! 0 = (decimal_value ''5.300'', decimal_value ''13.233'')" by simp
  then have "ps ! 0 = (53 / 10, 13233 / 1000)" by (simp add: num_eval)
  with l have "ps = [(53 / 10, 13233 / 1000)]" by (cases ps) auto
  with ps(1) show ?thesis by (simp add: is_float_eval)
qed

section \<open>The Execution/Penalty matchers (C3)\<close>

lemma e_pen_groups_not_float: "\<not> is_float t \<Longrightarrow> e_pen_groups (t # ts) = []"
  by (cases ts) simp_all

lemma e_pen_groups_single:
  "is_float t \<Longrightarrow> \<not> (ts \<noteq> [] \<and> starts_minus (hd ts) \<and> is_float (hd ts)) \<Longrightarrow>
   e_pen_groups (t # ts) = (decimal_value t, 0) # e_pen_groups ts"
  by (cases ts) auto

lemma e_pen_groups_pair:
  "is_float t \<Longrightarrow> starts_minus u \<Longrightarrow> is_float u \<Longrightarrow>
   e_pen_groups (t # u # ts) = (decimal_value t, decimal_value u) # e_pen_groups ts"
  by simp

lemma e_pen_loop_groups:
  "e_pen_loop t m i vals = vals @ take (nat (m - int (length vals))) (e_pen_groups (drop i t))"
proof (induction t m i vals rule: e_pen_loop.induct)
  case (1 t m i vals)
  show ?case
  proof (cases "int (length vals) < m \<and> i < length t")
    case False
    then show ?thesis by (subst e_pen_loop.simps) auto
  next
    case True
    then have d: "drop i t = t ! i # drop (i + 1) t" by (simp add: Cons_nth_drop_Suc)
    from True obtain n where n: "nat (m - int (length vals)) = Suc n"
      "nat (m - int (length (vals @ [x]))) = n" for x
      by (cases "nat (m - int (length vals))") auto
    show ?thesis
    proof (cases "is_float (t ! i)")
      case False
      then show ?thesis using True d by (subst e_pen_loop.simps) (simp add: e_pen_groups_not_float)
    next
      case fl: True
      show ?thesis
      proof (cases "i + 1 < length t \<and> starts_minus (t ! (i + 1)) \<and> is_float (t ! (i + 1))")
        case pen: True
        then have d2: "drop (i + 1) t = t ! (i + 1) # drop (i + 1 + 1) t"
          by (simp add: Cons_nth_drop_Suc)
        have IH: "e_pen_loop t m (i + 1 + 1) (vals @ [(decimal_value (t ! i), decimal_value (t ! (i + 1)))])
           = (vals @ [(decimal_value (t ! i), decimal_value (t ! (i + 1)))])
             @ take n (e_pen_groups (drop (i + 1 + 1) t))"
          using 1(1)[OF True _ refl refl pen] fl n(2) by simp
        have "e_pen_groups (drop i t) = (decimal_value (t ! i), decimal_value (t ! (i + 1)))
                # e_pen_groups (drop (i + 1 + 1) t)"
          using d d2 fl pen by (simp add: e_pen_groups_pair)
        then show ?thesis using True fl pen IH n(1)
          by (subst e_pen_loop.simps) (simp add: Let_def)
      next
        case nopen: False
        have IH: "e_pen_loop t m (i + 1) (vals @ [(decimal_value (t ! i), 0)])
           = (vals @ [(decimal_value (t ! i), 0)]) @ take n (e_pen_groups (drop (i + 1) t))"
          using 1(2)[OF True _ refl refl nopen] fl n(2) by simp
        have "\<not> (drop (i + 1) t \<noteq> [] \<and> starts_minus (hd (drop (i + 1) t)) \<and> is_float (hd (drop (i + 1) t)))"
          using nopen by (auto simp: hd_drop_conv_nth)
        then have "e_pen_groups (drop i t) = (decimal_value (t ! i), 0) # e_pen_groups (drop (i + 1) t)"
          using d fl e_pen_groups_single by metis
        then show ?thesis using True fl nopen IH n(1)
          by (subst e_pen_loop.simps) (auto simp: Let_def)
      qed
    qed
  qed
qed

lemma e_pen_line_loop_groups:
  "e_pen_line_loop n toks i out =
     (if n \<le> length (e_pen_groups (drop i toks))
      then Some (out @ take n (e_pen_groups (drop i toks))) else None)"
proof (induction n arbitrary: i out)
  case 0
  show ?case by simp
next
  case (Suc n)
  show ?case
  proof (cases "length toks \<le> i")
    case True
    then show ?thesis by simp
  next
    case False
    then have d: "drop i toks = toks ! i # drop (i + 1) toks" by (simp add: Cons_nth_drop_Suc)
    show ?thesis
    proof (cases "is_float (toks ! i)")
      case nf: False
      then show ?thesis using False d by (simp add: e_pen_groups_not_float)
    next
      case fl: True
      show ?thesis
      proof (cases "i + 1 < length toks \<and> starts_minus (toks ! (i + 1)) \<and> is_float (toks ! (i + 1))")
        case pen: True
        then have d2: "drop (i + 1) toks = toks ! (i + 1) # drop (i + 1 + 1) toks"
          by (simp add: Cons_nth_drop_Suc)
        have g: "e_pen_groups (drop i toks) = (decimal_value (toks ! i), decimal_value (toks ! (i + 1)))
                # e_pen_groups (drop (i + 1 + 1) toks)"
          using d d2 fl pen by (simp add: e_pen_groups_pair)
        show ?thesis using False fl pen g Suc[of "i + 1 + 1"]
          by (simp add: Let_def)
      next
        case nopen: False
        have "\<not> (drop (i + 1) toks \<noteq> [] \<and> starts_minus (hd (drop (i + 1) toks))
                 \<and> is_float (hd (drop (i + 1) toks)))"
          using nopen by (auto simp: hd_drop_conv_nth)
        then have g: "e_pen_groups (drop i toks) = (decimal_value (toks ! i), 0) # e_pen_groups (drop (i + 1) toks)"
          using d fl e_pen_groups_single by metis
        show ?thesis using False fl nopen g Suc[of "i + 1"]
          by (auto simp: Let_def)
      qed
    qed
  qed
qed

text \<open>
  C3 as stated asks every Execution/Penalty matcher to hand back the groups found so far
  when there are fewer than four.  The matcher of the individual script does not: on a line
  with one group it returns \<^verbatim>\<open>None\<close>, where the matcher of the team script returns that
  group.
\<close>

theorem e_pen_line_partial_counterexample:
  "parse_e_pen_line ''8.500'' = None
   \<and> parse_e_pen (py_split (norm_str ''8.500'')) 4 = [(17 / 2, 0)]"
  by (simp add: parse_e_pen_line_def parse_e_pen_def e_pen_loop.simps str_eval sub_ws.simps
        is_float_eval num_eval numeral_eq_Suc)

text \<open>
  C3, amended.  Both matchers read the white-space separated tokens from left to right in
  groups of a number followed, if the next token is a number that starts with a minus
  sign, by that number as the penalty; a group without it has penalty 0; the groups end at
  the first token that is no number (\<open>e_pen_groups\<close>).  The matcher of the team script
  returns the first \<open>max_groups\<close> groups (four at its call), so fewer when fewer were found.
  The matcher of the individual script returns the first four groups when there are at least
  four and \<^verbatim>\<open>None\<close> otherwise.
\<close>

theorem e_pen_matchers_spec:
  "parse_e_pen toks m = take (nat m) (e_pen_groups toks)
   \<and> parse_e_pen_line line =
       (if 4 \<le> length (e_pen_groups (py_split line))
        then Some (take 4 (e_pen_groups (py_split line))) else None)"
  by (simp add: parse_e_pen_def e_pen_loop_groups parse_e_pen_line_def e_pen_line_loop_groups
        py_split_norm_str)

theorem e_pen_matchers_spec_witness:
  "parse_e_pen [''8.500'', ''-0.100'', ''9.000''] 4 = [(17 / 2, - (1 / 10)), (9, 0)]
   \<and> parse_e_pen_line ''8.500 -0.100 9.000'' = None"
  using e_pen_matchers_spec[of "[''8.500'', ''-0.100'', ''9.000'']" 4 "''8.500 -0.100 9.000''"]
  by (simp add: str_eval is_float_eval num_eval)

section \<open>The Difficulty/Score/Rank line (C4)\<close>

subsection \<open>The matcher only moves forward\<close>

lemma adv_refl: "adv st st"
  by (auto simp: adv_def intro: exI[of _ 0])

lemma adv_trans: "adv a b \<Longrightarrow> adv b c \<Longrightarrow> adv a c"
proof -
  assume "adv a b" "adv b c"
  then obtain n m where n: "n \<le> length (fst (snd a))" "fst b = fst a + n" "fst (snd b) = drop n (fst (snd a))"
    and m: "m \<le> length (fst (snd b))" "fst c = fst b + m" "fst (snd c) = drop m (fst (snd b))"
    by (auto simp: adv_def)
  then have "n + m \<le> length (fst (snd a))" "fst c = fst a + (n + m)"
    "fst (snd c) = drop (n + m) (fst (snd a))"
    by (auto simp: add.commute)
  then show ?thesis unfolding adv_def by blast
qed

lemma rep_sound:
  assumes f: "\<And>k st x. f k st = Some x \<Longrightarrow> \<exists>st'. adv st st' \<and> k st' = Some x"
  shows "rep h f g lo k st = Some x \<Longrightarrow> \<exists>st'. adv st st' \<and> k st' = Some x"
proof (induction h arbitrary: lo k st x)
  case 0
  then have "k st = Some x" by (auto simp: rep.simps split: if_splits)
  then show ?case using adv_refl by blast
next
  case (Suc h)
  let ?more = "f (guard (fst st) (rep h f g (lo - 1) k)) st"
  from Suc.prems consider "?more = Some x" | "lo = 0" "k st = Some x"
    by (auto simp: rep.simps split: if_splits option.splits)
  then show ?case
  proof cases
    case 1
    from f[OF 1] obtain st1 where st1: "adv st st1" "guard (fst st) (rep h f g (lo - 1) k) st1 = Some x"
      by blast
    then have "rep h f g (lo - 1) k st1 = Some x" by (simp add: guard_def split: if_splits)
    from Suc.IH[OF this] obtain st2 where "adv st1 st2" "k st2 = Some x" by blast
    with st1(1) show ?thesis using adv_trans by blast
  next
    case 2
    then show ?thesis using adv_refl by blast
  qed
qed

lemma rxm_sound:
  "rxm r k st = Some x \<Longrightarrow> \<exists>st'. adv st st' \<and> k st' = Some x"
proof (induction r arbitrary: k st x)
  case (Cls P)
  obtain p s c where st: "st = (p, s, c)" by (cases st) auto
  with Cls obtain y ys where s: "s = y # ys" "P y" "k (Suc p, ys, c) = Some x"
    by (cases s) (auto simp: rxm.simps split: if_splits)
  have "adv st (Suc p, ys, c)" unfolding adv_def st s by (auto intro: exI[of _ 1])
  with s show ?case by blast
next
  case Bol
  then have "k st = Some x" by (auto simp: rxm.simps split: if_splits)
  then show ?case using adv_refl by blast
next
  case Eol
  then have "k st = Some x" by (auto simp: rxm.simps split: if_splits)
  then show ?case using adv_refl by blast
next
  case Eps
  then have "k st = Some x" by (auto simp: rxm.simps)
  then show ?case using adv_refl by blast
next
  case (Seq a b)
  from Seq.prems have "rxm a (rxm b k) st = Some x" by (simp add: rxm.simps)
  from Seq.IH(1)[OF this] obtain st1 where st1: "adv st st1" "rxm b k st1 = Some x" by blast
  from Seq.IH(2)[OF st1(2)] obtain st2 where "adv st1 st2" "k st2 = Some x" by blast
  with st1(1) show ?case using adv_trans by blast
next
  case (Rep g lo hi r)
  from Rep.prems obtain h where h: "rep h (rxm r) g lo k st = Some x" by (auto simp: rxm.simps)
  show ?case by (rule rep_sound[of "rxm r", OF _ h]) (rule Rep.IH)
next
  case (Grp n r)
  from Grp.prems have "rxm r (grp_end n st k) st = Some x" by (simp add: rxm.simps)
  from Grp.IH[OF this] obtain st1 where st1: "adv st st1" "grp_end n st k st1 = Some x" by blast
  let ?st2 = "(fst st1, fst (snd st1), (n, take (fst st1 - fst st) (fst (snd st))) # snd (snd st1))"
  have "adv st ?st2" using st1(1) by (simp add: adv_def)
  moreover have "k ?st2 = Some x" using st1(2) by (simp add: grp_end_def)
  ultimately show ?case by blast
qed

lemma rxm_Some_adv:
  "rxm r Some (p, s, c) = Some (p', s', c') \<Longrightarrow>
   \<exists>n\<le>length s. p' = p + n \<and> s' = drop n s"
  using rxm_sound[of r Some "(p, s, c)" "(p', s', c')"] by (auto simp: adv_def)

subsection \<open>A match does not depend on what follows the pattern\<close>

lemma rep_mono:
  assumes f: "\<And>k k' st. f k st \<noteq> None \<Longrightarrow> (\<And>st'. k st' \<noteq> None \<Longrightarrow> k' st' \<noteq> None)
                \<Longrightarrow> f k' st \<noteq> None"
  shows "rep h f g lo k st \<noteq> None \<Longrightarrow> (\<And>st'. k st' \<noteq> None \<Longrightarrow> k' st' \<noteq> None)
         \<Longrightarrow> rep h f g lo k' st \<noteq> None"
proof (induction h arbitrary: lo k k' st)
  case 0
  then show ?case by (auto simp: rep.simps split: if_splits)
next
  case (Suc h)
  let ?more = "\<lambda>k. f (guard (fst st) (rep h f g (lo - 1) k)) st"
  have more: "?more k \<noteq> None \<Longrightarrow> ?more k' \<noteq> None"
  proof (rule f, assumption)
    fix st' assume "guard (fst st) (rep h f g (lo - 1) k) st' \<noteq> None"
    then have "fst st < fst st'" "rep h f g (lo - 1) k st' \<noteq> None"
      by (auto simp: guard_def split: if_splits)
    then show "guard (fst st) (rep h f g (lo - 1) k') st' \<noteq> None"
      using Suc.IH[OF _ Suc.prems(2)] by (simp add: guard_def)
  qed
  from Suc.prems(1) consider "?more k \<noteq> None" | "lo = 0" "k st \<noteq> None"
    by (auto simp: rep.simps split: if_splits option.splits)
  then show ?case
  proof cases
    case 1
    then have "?more k' \<noteq> None" by (rule more)
    then show ?thesis by (auto simp: rep.simps split: option.splits)
  next
    case 2
    then have "k' st \<noteq> None" using Suc.prems(2) by blast
    with 2 show ?thesis by (auto simp: rep.simps split: option.splits)
  qed
qed

lemma rxm_mono:
  "rxm r k st \<noteq> None \<Longrightarrow> (\<And>st'. k st' \<noteq> None \<Longrightarrow> k' st' \<noteq> None) \<Longrightarrow> rxm r k' st \<noteq> None"
proof (induction r arbitrary: k k' st)
  case (Cls P)
  then show ?case by (auto simp: rxm.simps split: prod.splits list.splits if_splits)
next
  case Bol
  then show ?case by (auto simp: rxm.simps split: if_splits)
next
  case Eol
  then show ?case by (auto simp: rxm.simps split: if_splits)
next
  case Eps
  then show ?case by (auto simp: rxm.simps)
next
  case (Seq a b)
  from Seq.prems(1) have "rxm a (rxm b k) st \<noteq> None" by (simp add: rxm.simps)
  then have "rxm a (rxm b k') st \<noteq> None"
    by (rule Seq.IH(1)) (rule Seq.IH(2), assumption, rule Seq.prems(2))
  then show ?case by (simp add: rxm.simps)
next
  case (Rep g lo hi r)
  from Rep.prems(1) obtain h where h: "rep h (rxm r) g lo k st \<noteq> None"
    "rxm (Rep g lo hi r) k' st = rep h (rxm r) g lo k' st" by (auto simp: rxm.simps)
  have "rep h (rxm r) g lo k' st \<noteq> None"
  proof (rule rep_mono[of "rxm r", OF _ h(1)])
    fix ka ka' :: cont and sta assume "rxm r ka sta \<noteq> None" "\<And>st'. ka st' \<noteq> None \<Longrightarrow> ka' st' \<noteq> None"
    then show "rxm r ka' sta \<noteq> None" by (rule Rep.IH)
  next
    fix st' assume "k st' \<noteq> None" then show "k' st' \<noteq> None" by (rule Rep.prems(2))
  qed
  with h(2) show ?case by simp
next
  case (Grp n r)
  from Grp.prems(1) have "rxm r (grp_end n st k) st \<noteq> None" by (simp add: rxm.simps)
  then have "rxm r (grp_end n st k') st \<noteq> None"
  proof (rule Grp.IH)
    fix st' assume "grp_end n st k st' \<noteq> None"
    then show "grp_end n st k' st' \<noteq> None" using Grp.prems(2) by (simp add: grp_end_def)
  qed
  then show ?case by (simp add: rxm.simps)
qed

lemma rxm_Seq_prefix: "rxm (Seq a b) Some st \<noteq> None \<Longrightarrow> rxm a Some st \<noteq> None"
  using rxm_mono[of a "rxm b Some" st Some] by (simp add: rxm.simps)

lemma rxm_Grp_body: "rxm (Grp n r) Some st \<noteq> None \<Longrightarrow> rxm r Some st \<noteq> None"
  using rxm_mono[of r "grp_end n st Some" st Some] by (simp add: rxm.simps)

lemma D_SCORE_RK_FLOAT3:
  "rxm D_SCORE_RK Some st \<noteq> None \<Longrightarrow> rxm FLOAT3 Some st \<noteq> None"
  unfolding D_SCORE_RK_def FLOAT3_def cat.simps
  by (rule rxm_Grp_body, rule rxm_Seq_prefix)

subsection \<open>Scanning for matches\<close>

lemma finditer_from_Nil_iff:
  "finditer_from r p s = [] \<longleftrightarrow> (\<forall>j\<le>length s. rxm r Some (p + j, drop j s, []) = None)"
proof (induction r p s rule: finditer_from.induct)
  case (1 r p s)
  show ?case
  proof (cases "rxm r Some (p, s, [])")
    case None
    show ?thesis
    proof (cases s)
      case Nil
      then show ?thesis using None by (subst finditer_from.simps) simp
    next
      case (Cons c t)
      have "finditer_from r p s = finditer_from r (Suc p) t"
        using None Cons by (subst finditer_from.simps) simp
      moreover have "(\<forall>j\<le>length s. rxm r Some (p + j, drop j s, []) = None)
           \<longleftrightarrow> (\<forall>j\<le>length t. rxm r Some (Suc p + j, drop j t, []) = None)"
      proof
        assume a: "\<forall>j\<le>length s. rxm r Some (p + j, drop j s, []) = None"
        show "\<forall>j\<le>length t. rxm r Some (Suc p + j, drop j t, []) = None"
        proof (intro allI impI)
          fix j assume "j \<le> length t"
          then have "Suc j \<le> length s" using Cons by simp
          from a[rule_format, OF this] show "rxm r Some (Suc p + j, drop j t, []) = None"
            using Cons by simp
        qed
      next
        assume a: "\<forall>j\<le>length t. rxm r Some (Suc p + j, drop j t, []) = None"
        show "\<forall>j\<le>length s. rxm r Some (p + j, drop j s, []) = None"
        proof (intro allI impI)
          fix j assume j: "j \<le> length s"
          show "rxm r Some (p + j, drop j s, []) = None"
          proof (cases j)
            case 0
            then show ?thesis using None by simp
          next
            case (Suc j')
            then have "j' \<le> length t" using j Cons by simp
            from a[rule_format, OF this] show ?thesis using Suc Cons by simp
          qed
        qed
      qed
      ultimately show ?thesis using 1(1)[OF None Cons] by simp
    qed
  next
    case (Some x)
    obtain p' s' c where x: "x = (p', s', c)" by (cases x) auto
    have "finditer_from r p s \<noteq> []"
      using Some x by (subst finditer_from.simps) simp
    moreover have "\<not> (\<forall>j\<le>length s. rxm r Some (p + j, drop j s, []) = None)"
    proof
      assume "\<forall>j\<le>length s. rxm r Some (p + j, drop j s, []) = None"
      from this[rule_format, of 0] show False using Some by simp
    qed
    ultimately show ?thesis by simp
  qed
qed

lemma match_at_None: "match_at r t j = None \<longleftrightarrow> rxm r Some (j, drop j t, []) = None"
  by (simp add: match_at_def)

lemma no_match_from_iff:
  "no_match_from r t j \<longleftrightarrow> (\<forall>j'. j \<le> j' \<and> j' \<le> length t \<longrightarrow> match_at r t j' = None)"
  by (auto simp: no_match_from_def list_all_iff)

lemma finditer_from_drop_Nil:
  "p \<le> length t \<Longrightarrow> finditer_from r p (drop p t) = [] \<longleftrightarrow> no_match_from r t p"
proof -
  assume p: "p \<le> length t"
  have "(\<forall>j\<le>length (drop p t). rxm r Some (p + j, drop j (drop p t), []) = None)
        \<longleftrightarrow> (\<forall>j'. p \<le> j' \<and> j' \<le> length t \<longrightarrow> rxm r Some (j', drop j' t, []) = None)"
  proof
    assume a: "\<forall>j\<le>length (drop p t). rxm r Some (p + j, drop j (drop p t), []) = None"
    show "\<forall>j'. p \<le> j' \<and> j' \<le> length t \<longrightarrow> rxm r Some (j', drop j' t, []) = None"
    proof (intro allI impI)
      fix j' assume j': "p \<le> j' \<and> j' \<le> length t"
      then have "j' - p \<le> length (drop p t)" by auto
      from a[rule_format, OF this] show "rxm r Some (j', drop j' t, []) = None"
        using j' by (simp add: add.commute)
    qed
  next
    assume a: "\<forall>j'. p \<le> j' \<and> j' \<le> length t \<longrightarrow> rxm r Some (j', drop j' t, []) = None"
    show "\<forall>j\<le>length (drop p t). rxm r Some (p + j, drop j (drop p t), []) = None"
    proof (intro allI impI)
      fix j assume "j \<le> length (drop p t)"
      then have "p \<le> p + j \<and> p + j \<le> length t" using p by simp
      from a[rule_format, OF this] show "rxm r Some (p + j, drop j (drop p t), []) = None"
        by (simp add: add.commute)
    qed
  qed
  then show ?thesis
    by (simp add: finditer_from_Nil_iff no_match_from_iff match_at_None)
qed

lemma rxm_Cls_Some:
  "rxm (Cls P) k (p, s, c) = Some x \<Longrightarrow> \<exists>y ys. s = y # ys \<and> P y \<and> k (Suc p, ys, c) = Some x"
  by (cases s) (auto simp: rxm.simps split: if_splits)

lemma FLOAT3_consumes:
  assumes "rxm FLOAT3 Some (p, s, c) = Some st'"
  shows "length (fst (snd st')) < length s"
proof -
  let ?a = "rx_times 1 2 (Cls is_digit)"
  let ?b = "cat [rx_times 3 3 (Cls is_digit)]"
  from assms have "rxm ?a (rxm (Seq (lit CHR ''.'') ?b) Some) (p, s, c) = Some st'"
    by (simp add: FLOAT3_def score3_def rxm.simps)
  from rxm_sound[OF this] obtain st1 where st1: "adv (p, s, c) st1"
    "rxm (Seq (lit CHR ''.'') ?b) Some st1 = Some st'" by blast
  obtain p1 s1 c1 where s1: "st1 = (p1, s1, c1)" by (cases st1) auto
  from st1(2) have "rxm (Cls (\<lambda>x. x = CHR ''.'')) (rxm ?b Some) (p1, s1, c1) = Some st'"
    by (simp add: rxm.simps lit_def s1)
  from rxm_Cls_Some[OF this] obtain y ys where ys: "s1 = y # ys"
    "rxm ?b Some (Suc p1, ys, c1) = Some st'" by blast
  from rxm_sound[OF ys(2)] have "adv (Suc p1, ys, c1) st'" by auto
  then have "length (fst (snd st')) \<le> length ys" by (auto simp: adv_def)
  moreover have "length s1 \<le> length s" using st1(1) s1 by (auto simp: adv_def)
  ultimately show ?thesis using ys(1) by simp
qed

lemma FLOAT3_match_nonempty:
  assumes "match_at FLOAT3 t j = Some tx" "j \<le> length t"
  shows "0 < length tx"
proof -
  from assms(1) obtain st' where st': "rxm FLOAT3 Some (j, drop j t, []) = Some st'"
    "tx = take (length t - j - length (fst (snd st'))) (drop j t)"
    by (auto simp: match_at_def)
  from FLOAT3_consumes[OF st'(1)] have "length (fst (snd st')) < length t - j" by simp
  then show ?thesis using st'(2) by simp
qed

subsection \<open>Where the blanks go in\<close>

lemma glue_behind_short: "length pre < 5 \<Longrightarrow> \<not> glue_behind pre"
  by (auto simp: glue_behind_def split: list.splits)

lemma rev_take_Suc: "n < length s \<Longrightarrow> rev (take (Suc n) s) = s ! n # rev (take n s)"
  by (simp add: take_Suc_conv_app_nth)

lemma glue_behind_take:
  assumes "i \<le> length s"
  shows "glue_behind (rev (take i s)) \<longleftrightarrow>
         (5 \<le> i \<and> is_digit (s ! (i - 5)) \<and> s ! (i - 4) = CHR ''.''
          \<and> is_digit (s ! (i - 3)) \<and> is_digit (s ! (i - 2)) \<and> is_digit (s ! (i - 1)))"
proof (cases "5 \<le> i")
  case False
  then have "length (rev (take i s)) < 5" using assms by simp
  then show ?thesis using False glue_behind_short by blast
next
  case True
  define m where "m = i - 5"
  have m: "i = Suc (Suc (Suc (Suc (Suc m))))" using True by (simp add: m_def)
  have "rev (take i s) = s ! (Suc (Suc (Suc (Suc m)))) # s ! (Suc (Suc (Suc m))) # s ! (Suc (Suc m))
          # s ! (Suc m) # s ! m # rev (take m s)"
    using assms unfolding m by (simp add: rev_take_Suc)
  then show ?thesis using True unfolding m by (auto simp: glue_behind_def)
qed

lemma deglue_from_take:
  "i \<le> length s \<Longrightarrow>
   deglue_from (rev (take i s)) (drop i s) =
     concat (map (\<lambda>i. (if glue_at s i then '' '' else []) @ [s ! i]) [i..<length s])"
proof (induction "length s - i" arbitrary: i)
  case 0
  then show ?case by simp
next
  case (Suc n)
  then have i: "i < length s" by simp
  have d: "drop i s = s ! i # drop (Suc i) s" using i by (simp add: Cons_nth_drop_Suc)
  have r: "s ! i # rev (take i s) = rev (take (Suc i) s)" using i by (simp add: rev_take_Suc)
  have g: "(glue_behind (rev (take i s)) \<and> is_digit (s ! i)) = glue_at s i"
    using i glue_behind_take[of i s] by (auto simp: glue_at_def)
  have IH: "deglue_from (rev (take (Suc i) s)) (drop (Suc i) s) =
     concat (map (\<lambda>i. (if glue_at s i then '' '' else []) @ [s ! i]) [Suc i..<length s])"
    using Suc.hyps(1)[of "Suc i"] Suc.hyps(2) i by simp
  have "deglue_from (rev (take i s)) (drop i s)
        = (if glue_at s i then '' '' else []) @ [s ! i]
          @ deglue_from (rev (take (Suc i) s)) (drop (Suc i) s)"
    unfolding d by (simp add: g r del: rev.simps)
  then show ?case using IH i by (simp add: upt_conv_Cons)
qed

lemma deglue_positions:
  "deglue s = concat (map (\<lambda>i. (if glue_at s i then '' '' else []) @ [s ! i]) [0..<length s])"
  using deglue_from_take[of 0 s] by (simp add: deglue_def)


lemma total_of_None: "total_of t = None \<longleftrightarrow> no_match_from FLOAT3 t 0"
  using finditer_from_drop_Nil[of 0 t FLOAT3]
  by (simp add: total_of_def finditer_def Let_def)

subsection \<open>The scan finds the matches in order\<close>

lemma is_scan_step:
  assumes "match_at r t p = None" "p \<le> length t" "is_scan r t (Suc p) ms"
  shows "is_scan r t p ms"
proof -
  have step: "\<And>j'. p \<le> j' \<Longrightarrow> j' = p \<or> Suc p \<le> j'" by arith
  show ?thesis
  proof (cases ms)
    case Nil
    with assms(3) have "\<forall>j'. Suc p \<le> j' \<and> j' \<le> length t \<longrightarrow> match_at r t j' = None"
      by (simp add: no_match_from_iff)
    with assms(1) step have "\<forall>j'. p \<le> j' \<and> j' \<le> length t \<longrightarrow> match_at r t j' = None"
      by blast
    with Nil show ?thesis by (simp add: no_match_from_iff)
  next
    case (Cons m ms')
    obtain j tx c where m: "m = (j, tx, c)" by (cases m) auto
    from assms(3) Cons m have a: "Suc p \<le> j" "j \<le> length t"
      "\<forall>j'. Suc p \<le> j' \<and> j' < j \<longrightarrow> match_at r t j' = None"
      "match_at r t j = Some tx" "tx \<noteq> []" "caps_at r t j = Some c"
      "is_scan r t (j + length tx) ms'"
      by (auto simp: list_all_iff)
    from a(3) assms(1) step have "\<forall>j'. p \<le> j' \<and> j' < j \<longrightarrow> match_at r t j' = None"
      by blast
    with a Cons m show ?thesis by (auto simp: list_all_iff)
  qed
qed

lemma finditer_from_scan:
  assumes ne: "\<And>j tx. j \<le> length t \<Longrightarrow> match_at r t j = Some tx \<Longrightarrow> tx \<noteq> []"
  shows "p \<le> length t \<Longrightarrow>
         \<exists>ms. is_scan r t p ms \<and> finditer_from r p (drop p t) = map snd ms"
proof (induction "length t - p" arbitrary: p rule: less_induct)
  case less
  let ?s = "drop p t"
  let ?F = "finditer_from r p ?s"
  show ?case
  proof (cases "rxm r Some (p, ?s, [])")
    case None
    then have m: "match_at r t p = None" by (simp add: match_at_def)
    show ?thesis
    proof (cases ?s)
      case Nil
      then have F: "?F = []" using None by (subst finditer_from.simps) simp
      have "p = length t" using Nil less.prems by simp
      then have "no_match_from r t p" using m by (simp add: no_match_from_def)
      then show ?thesis using F by (intro exI[of _ "[]"]) simp
    next
      case (Cons x xs)
      then have p: "p < length t" by (metis drop_eq_Nil2 list.distinct(1) not_le)
      have xs: "xs = drop (Suc p) t" using Cons by (metis drop_Suc tl_drop list.sel(3))
      have F: "?F = finditer_from r (Suc p) (drop (Suc p) t)"
        using None Cons xs by (subst finditer_from.simps) simp
      have "length t - Suc p < length t - p" "Suc p \<le> length t" using p by simp_all
      from less.hyps[OF this] obtain ms where
        ms: "is_scan r t (Suc p) ms" "finditer_from r (Suc p) (drop (Suc p) t) = map snd ms"
        by blast
      from is_scan_step[OF m less.prems ms(1)] ms(2) F show ?thesis by auto
    qed
  next
    case (Some st')
    obtain p' s' c where st': "st' = (p', s', c)" by (cases st') auto
    from rxm_Some_adv[OF Some[unfolded st']] obtain n where
      n: "n \<le> length ?s" "p' = p + n" "s' = drop n ?s" by blast
    have ls': "length s' = length t - p - n" using n by simp
    have s'': "s' = drop (p + n) t" using n by (simp add: add.commute)
    have "length t - p - length s' = n" using ls' n(1) less.prems(1) by auto
    then have m: "match_at r t p = Some (take n ?s)"
      using Some st' by (simp add: match_at_def)
    have cp: "caps_at r t p = Some c" using Some st' by (simp add: caps_at_def)
    from ne[OF less.prems m] have "0 < n" by auto
    then have lt: "length s' < length ?s" using n less.prems(1) by simp
    have len: "length ?s - length s' = n" using n by simp
    let ?R = "finditer_from r (p + n) (drop (p + n) t)"
    have F: "?F = (take n ?s, c) # ?R"
      using Some st' lt len s'' by (subst finditer_from.simps) simp
    have pn: "p + n \<le> length t" using n less.prems(1) by simp
    have "length t - (p + n) < length t - p" using \<open>0 < n\<close> n less.prems(1) by simp
    from less.hyps[OF this pn] obtain ms where
      ms: "is_scan r t (p + n) ms" "?R = map snd ms" by blast
    have ltk: "length (take n ?s) = n" using n by simp
    have "is_scan r t p ((p, take n ?s, c) # ms)"
      using less.prems m cp ms(1) \<open>0 < n\<close> n(1) by (simp add: ltk)
    moreover have "?F = map snd ((p, take n ?s, c) # ms)" using F ms(2) by simp
    ultimately show ?thesis by blast
  qed
qed

lemma is_scan_unique:
  "is_scan r t p ms \<Longrightarrow> is_scan r t p ms' \<Longrightarrow> ms = ms'"
proof (induction ms arbitrary: p ms')
  case Nil
  show ?case
  proof (cases ms')
    case Nil then show ?thesis by simp
  next
    case (Cons m ms'')
    obtain j tx c where m: "m = (j, tx, c)" by (cases m) auto
    from Nil.prems(2) Cons m have "p \<le> j" "j \<le> length t" "match_at r t j = Some tx" by simp_all
    moreover from Nil.prems(1) have "no_match_from r t p" by simp
    ultimately show ?thesis by (auto simp: no_match_from_iff)
  qed
next
  case (Cons m ms)
  obtain j tx c where m: "m = (j, tx, c)" by (cases m) auto
  from Cons.prems(1) m have a: "p \<le> j" "j \<le> length t" "\<forall>j'. p \<le> j' \<and> j' < j \<longrightarrow> match_at r t j' = None"
    "match_at r t j = Some tx" "caps_at r t j = Some c" "is_scan r t (j + length tx) ms"
    by (auto simp: list_all_iff)
  show ?case
  proof (cases ms')
    case Nil
    with Cons.prems(2) have "no_match_from r t p" by simp
    with a show ?thesis by (auto simp: no_match_from_iff)
  next
    case (Cons m' ms'')
    obtain j' tx' c' where m': "m' = (j', tx', c')" by (cases m') auto
    from Cons.prems(2) Cons m' have b: "p \<le> j'" "j' \<le> length t"
      "\<forall>i. p \<le> i \<and> i < j' \<longrightarrow> match_at r t i = None"
      "match_at r t j' = Some tx'" "caps_at r t j' = Some c'" "is_scan r t (j' + length tx') ms''"
      by (auto simp: list_all_iff)
    have "j = j'"
    proof (rule ccontr)
      assume "j \<noteq> j'"
      then consider "j < j'" | "j' < j" by linarith
      then show False
      proof cases
        case 1 with a(1) b(3) a(4) show False by auto
      next
        case 2 with b(1) a(3) b(4) show False by auto
      qed
    qed
    with a b have "tx = tx'" "c = c'" by auto
    with a(6) b(6) \<open>j = j'\<close> have "ms = ms''" using Cons.IH by blast
    with \<open>j = j'\<close> \<open>tx = tx'\<close> \<open>c = c'\<close> m m' Cons show ?thesis by simp
  qed
qed

lemma FLOAT3_consumes_k:
  assumes "rxm FLOAT3 k (p, s, c) = Some x"
  shows "\<exists>st1. length (fst (snd st1)) < length s \<and> k st1 = Some x"
proof -
  let ?a = "rx_times 1 2 (Cls is_digit)"
  let ?b = "cat [rx_times 3 3 (Cls is_digit)]"
  from assms have "rxm ?a (rxm (Seq (lit CHR ''.'') ?b) k) (p, s, c) = Some x"
    by (simp add: FLOAT3_def score3_def rxm.simps)
  from rxm_sound[OF this] obtain st1 where st1: "adv (p, s, c) st1"
    "rxm (Seq (lit CHR ''.'') ?b) k st1 = Some x" by blast
  obtain p1 s1 c1 where s1: "st1 = (p1, s1, c1)" by (cases st1) auto
  from st1(2) have "rxm (Cls (\<lambda>x. x = CHR ''.'')) (rxm ?b k) (p1, s1, c1) = Some x"
    by (simp add: rxm.simps lit_def s1)
  from rxm_Cls_Some[OF this] obtain y ys where ys: "s1 = y # ys"
    "rxm ?b k (Suc p1, ys, c1) = Some x" by blast
  from rxm_sound[OF ys(2)] obtain st2 where st2: "adv (Suc p1, ys, c1) st2" "k st2 = Some x" by auto
  then have "length (fst (snd st2)) \<le> length ys" by (auto simp: adv_def)
  moreover have "length s1 \<le> length s" using st1(1) s1 by (auto simp: adv_def)
  ultimately have "length (fst (snd st2)) < length s" using ys(1) by simp
  with st2(2) show ?thesis by blast
qed

lemma D_SCORE_RK_consumes:
  assumes "rxm D_SCORE_RK Some (p, s, c) = Some st'"
  shows "length (fst (snd st')) < length s"
proof -
  obtain rest where r: "D_SCORE_RK = Seq (Grp ''D'' FLOAT3) rest"
    by (simp add: D_SCORE_RK_def FLOAT3_def)
  from assms have "rxm FLOAT3 (grp_end ''D'' (p, s, c) (rxm rest Some)) (p, s, c) = Some st'"
    by (simp add: r rxm.simps)
  from FLOAT3_consumes_k[OF this] obtain st1 where st1: "length (fst (snd st1)) < length s"
    "grp_end ''D'' (p, s, c) (rxm rest Some) st1 = Some st'" by blast
  then obtain st2 where st2: "fst (snd st2) = fst (snd st1)" "rxm rest Some st2 = Some st'"
    by (auto simp: grp_end_def)
  from rxm_sound[OF st2(2)] have "adv st2 st'" by auto
  then have "length (fst (snd st')) \<le> length (fst (snd st2))" by (auto simp: adv_def)
  with st1(1) st2(1) show ?thesis by simp
qed

lemma D_SCORE_RK_match_nonempty:
  assumes "j \<le> length t" "match_at D_SCORE_RK t j = Some tx"
  shows "tx \<noteq> []"
proof -
  from assms(2) obtain st' where st': "rxm D_SCORE_RK Some (j, drop j t, []) = Some st'"
    "tx = take (length t - j - length (fst (snd st'))) (drop j t)"
    by (auto simp: match_at_def)
  from D_SCORE_RK_consumes[OF st'(1)] have "length (fst (snd st')) < length t - j" by simp
  then show ?thesis using st'(2) by auto
qed

lemma FLOAT3_match_ne:
  "j \<le> length t \<Longrightarrow> match_at FLOAT3 t j = Some tx \<Longrightarrow> tx \<noteq> []"
  using FLOAT3_match_nonempty[of t j tx] by auto

lemma triplets_scan:
  "\<exists>ms. is_scan D_SCORE_RK t 0 ms \<and> finditer D_SCORE_RK t = map snd ms"
  using finditer_from_scan[of t D_SCORE_RK 0, OF D_SCORE_RK_match_nonempty]
  by (simp add: finditer_def)

lemma total_scan:
  "\<exists>ms. is_scan FLOAT3 t 0 ms \<and> finditer FLOAT3 t = map snd ms"
  using finditer_from_scan[of t FLOAT3 0, OF FLOAT3_match_ne]
  by (simp add: finditer_def)

lemma total_of_scan:
  assumes "is_scan FLOAT3 t 0 ms"
  shows "total_of t = (if ms = [] then None else Some (decimal_value (fst (snd (last ms)))))"
proof -
  from total_scan[of t] obtain ms' where ms': "is_scan FLOAT3 t 0 ms'"
    "finditer FLOAT3 t = map snd ms'" by blast
  from is_scan_unique[OF assms ms'(1)] ms'(2) have "finditer FLOAT3 t = map snd ms" by simp
  then show ?thesis by (simp add: total_of_def Let_def last_map)
qed

lemma triplets_of_scan:
  assumes "is_scan D_SCORE_RK t 0 ms"
  shows "map triplet_of (finditer D_SCORE_RK t) =
         map (\<lambda>m. (decimal_value (re_group (snd (snd m)) ''D''),
                    decimal_value (re_group (snd (snd m)) ''score''),
                    py_int (re_group (snd (snd m)) ''rk''))) ms"
proof -
  from triplets_scan[of t] obtain ms' where ms': "is_scan D_SCORE_RK t 0 ms'"
    "finditer D_SCORE_RK t = map snd ms'" by blast
  from is_scan_unique[OF assms ms'(1)] ms'(2) have "finditer D_SCORE_RK t = map snd ms" by simp
  then show ?thesis by (simp add: triplet_of_def)
qed

subsection \<open>The shape of a number with three decimals\<close>

lemma not_digit_dot: "\<not> is_digit CHR ''.''"
  by (simp add: is_digit_def)

lemmas f3_eval = FLOAT3_def score3_def rxm_eval rep_eval lit_def rx_times_def cat.simps
  is_float3_def not_digit_dot

lemma FLOAT3_run:
  "map_option (\<lambda>st'. take (length s - length (fst (snd st'))) s) (rxm FLOAT3 Some (p, s, c))
   = (if is_float3 (take 6 s) then Some (take 6 s)
      else if is_float3 (take 5 s) then Some (take 5 s) else None)"
proof (cases s)
  case Nil
  then show ?thesis by (simp add: f3_eval)
next
  case s1: (Cons a s1)
  show ?thesis
  proof (cases s1)
    case Nil
    then show ?thesis using s1 by (simp add: f3_eval)
  next
    case s2: (Cons b s2)
    show ?thesis
    proof (cases s2)
      case Nil
      then show ?thesis using s1 s2 by (simp add: f3_eval)
    next
      case s3: (Cons c3 s3)
      show ?thesis
      proof (cases s3)
        case Nil
        then show ?thesis using s1 s2 s3 by (simp add: f3_eval)
      next
        case s4: (Cons d s4)
        show ?thesis
        proof (cases s4)
          case Nil
          then show ?thesis using s1 s2 s3 s4 by (simp add: f3_eval)
        next
          case s5: (Cons e s5)
          show ?thesis
          proof (cases s5)
            case Nil
            then show ?thesis using s1 s2 s3 s4 s5 by (auto simp add: f3_eval)
          next
            case s6: (Cons f s6)
            then show ?thesis using s1 s2 s3 s4 s5 by (auto simp add: f3_eval)
          qed
        qed
      qed
    qed
  qed
qed

lemma match_at_FLOAT3: "j \<le> length t \<Longrightarrow> match_at FLOAT3 t j = float3_at t j"
  using FLOAT3_run[of "drop j t" j "[]"]
  by (simp add: match_at_def float3_at_def)

lemmas scan_eval = is_scan.simps no_match_from_def match_at_def caps_at_def upt_conv_Cons
  FLOAT3_def D_SCORE_RK_def rx_eval

text \<open>
  C4.  For every line \<open>l\<close>, with \<open>dscore_text l\<close> the line after \<^verbatim>\<open>norm\<close> and the substitution:
  \<^item> \<open>dscore_text l\<close> is the normalized line with one blank put in front of every character
    that is a digit and has \<^verbatim>\<open>\d\.\d{3}\<close> directly before it, and nothing else changed;
  \<^item> the text has a left-to-right scan for \<^verbatim>\<open>D_SCORE_RK\<close>, and the triplets are, match by match
    of that scan and in its order, the values of the groups \<^verbatim>\<open>D\<close>, \<^verbatim>\<open>score\<close> and \<^verbatim>\<open>rk\<close>;
  \<^item> the text has a left-to-right scan for \<^verbatim>\<open>\d{1,2}\.\d{3}\<close>, on its own and whatever the
    triplets are; Total is the value of the last match of that scan, and absent when the scan
    finds nothing.  The scan is the only one: its first match is at the least position where
    the pattern matches, each further match at the least such position from the end of the
    match before;
  \<^item> at a position of the text the pattern \<^verbatim>\<open>\d{1,2}\.\d{3}\<close> matches the six characters from
    there on when they are two digits, a point and three digits, else the five characters
    when they are a digit, a point and three digits, and else nothing;
  \<^item> Total is absent exactly when the pattern matches at no position of the text.
\<close>

theorem parse_dscore_line_spec:
  "dscore_text l = concat (map (\<lambda>i. (if glue_at (norm_str l) i then '' '' else []) @ [norm_str l ! i])
                              [0..<length (norm_str l)])
   \<and> (\<exists>ms. is_scan D_SCORE_RK (dscore_text l) 0 ms)
   \<and> (\<forall>ms. is_scan D_SCORE_RK (dscore_text l) 0 ms \<longrightarrow>
         fst (parse_dscore_line l) =
           map (\<lambda>m. (decimal_value (re_group (snd (snd m)) ''D''),
                      decimal_value (re_group (snd (snd m)) ''score''),
                      py_int (re_group (snd (snd m)) ''rk''))) ms)
   \<and> (\<exists>ms. is_scan FLOAT3 (dscore_text l) 0 ms)
   \<and> (\<forall>ms. is_scan FLOAT3 (dscore_text l) 0 ms \<longrightarrow>
         snd (parse_dscore_line l) =
           (if ms = [] then None else Some (decimal_value (fst (snd (last ms))))))
   \<and> (\<forall>j\<le>length (dscore_text l). match_at FLOAT3 (dscore_text l) j = float3_at (dscore_text l) j)
   \<and> (snd (parse_dscore_line l) = None \<longleftrightarrow> no_match_from FLOAT3 (dscore_text l) 0)"
proof -
  let ?t = "dscore_text l"
  have 1: "?t = concat (map (\<lambda>i. (if glue_at (norm_str l) i then '' '' else []) @ [norm_str l ! i])
                              [0..<length (norm_str l)])"
    by (simp add: dscore_text_def deglue_positions)
  have 2: "\<exists>ms. is_scan D_SCORE_RK ?t 0 ms" using triplets_scan[of ?t] by blast
  have 3: "\<forall>ms. is_scan D_SCORE_RK ?t 0 ms \<longrightarrow>
         fst (parse_dscore_line l) =
           map (\<lambda>m. (decimal_value (re_group (snd (snd m)) ''D''),
                      decimal_value (re_group (snd (snd m)) ''score''),
                      py_int (re_group (snd (snd m)) ''rk''))) ms"
    using triplets_of_scan[of ?t] by (simp add: parse_dscore_line_def Let_def)
  have 4: "\<exists>ms. is_scan FLOAT3 ?t 0 ms" using total_scan[of ?t] by blast
  have 5: "\<forall>ms. is_scan FLOAT3 ?t 0 ms \<longrightarrow>
         snd (parse_dscore_line l) =
           (if ms = [] then None else Some (decimal_value (fst (snd (last ms)))))"
    using total_of_scan[of ?t] by (simp add: parse_dscore_line_def Let_def)
  have 6: "\<forall>j\<le>length ?t. match_at FLOAT3 ?t j = float3_at ?t j"
    by (simp add: match_at_FLOAT3)
  have 7: "snd (parse_dscore_line l) = None \<longleftrightarrow> no_match_from FLOAT3 ?t 0"
    by (simp add: parse_dscore_line_def Let_def total_of_None)
  from 1 2 3 4 5 6 7 show ?thesis by blast
qed

theorem parse_dscore_line_spec_witness:
  "dscore_text ''6.40015.766 (1) 14.100'' = ''6.400 15.766 (1) 14.100''
   \<and> is_scan D_SCORE_RK ''6.400 15.766 (1) 14.100'' 0
        [(0, ''6.400 15.766 (1)'', [(''rk'', ''1''), (''score'', ''15.766''), (''D'', ''6.400'')])]
   \<and> is_scan FLOAT3 ''6.400 15.766 (1) 14.100'' 0
        [(0, ''6.400'', []), (6, ''15.766'', []), (17, ''14.100'', [])]
   \<and> parse_dscore_line ''6.40015.766 (1) 14.100'' = ([(32 / 5, 7883 / 500, 1)], Some (141 / 10))
   \<and> is_scan FLOAT3 (dscore_text ''58.399'') 0 [(0, ''58.399'', [])]
   \<and> snd (parse_dscore_line ''58.399'') = Some (58399 / 1000)"
proof -
  let ?l = "''6.40015.766 (1) 14.100''"
  have t: "dscore_text ?l = ''6.400 15.766 (1) 14.100''"
    by (simp add: dscore_text_def deglue_def glue_behind_def norm_str_def sub_ws.simps
          py_strip_def is_space_def is_digit_def)
  have d: "is_scan D_SCORE_RK ''6.400 15.766 (1) 14.100'' 0
        [(0, ''6.400 15.766 (1)'', [(''rk'', ''1''), (''score'', ''15.766''), (''D'', ''6.400'')])]"
    by (simp add: scan_eval)
  have f: "is_scan FLOAT3 ''6.400 15.766 (1) 14.100'' 0
        [(0, ''6.400'', []), (6, ''15.766'', []), (17, ''14.100'', [])]"
    by (simp add: scan_eval)
  have t2: "dscore_text ''58.399'' = ''58.399''"
    by (simp add: dscore_text_def deglue_def glue_behind_def norm_str_def sub_ws.simps
          py_strip_def is_space_def is_digit_def)
  have f2: "is_scan FLOAT3 (dscore_text ''58.399'') 0 [(0, ''58.399'', [])]"
    unfolding t2 by (simp add: scan_eval)
  have d': "is_scan D_SCORE_RK (dscore_text ?l) 0
        [(0, ''6.400 15.766 (1)'', [(''rk'', ''1''), (''score'', ''15.766''), (''D'', ''6.400'')])]"
    unfolding t by (rule d)
  have f': "is_scan FLOAT3 (dscore_text ?l) 0
        [(0, ''6.400'', []), (6, ''15.766'', []), (17, ''14.100'', [])]"
    unfolding t by (rule f)
  have p1: "fst (parse_dscore_line ?l) = [(32 / 5, 7883 / 500, 1)]"
    using parse_dscore_line_spec[of ?l, THEN conjunct2, THEN conjunct2, THEN conjunct1,
            rule_format, OF d']
    by (simp add: re_group_def py_int_def num_eval)
  have "snd (parse_dscore_line ?l) = Some (141 / 10)"
    using parse_dscore_line_spec[of ?l, THEN conjunct2, THEN conjunct2, THEN conjunct2,
            THEN conjunct2, THEN conjunct1, rule_format, OF f']
    by (simp add: num_eval)
  with p1 have p: "parse_dscore_line ?l = ([(32 / 5, 7883 / 500, 1)], Some (141 / 10))"
    by (simp add: prod_eq_iff)
  have p2: "snd (parse_dscore_line ''58.399'') = Some (58399 / 1000)"
    using parse_dscore_line_spec[of "''58.399''", THEN conjunct2, THEN conjunct2,
            THEN conjunct2, THEN conjunct2, THEN conjunct1, rule_format, OF f2]
    by (simp add: num_eval)
  from t d f p f2 p2 show ?thesis by (intro conjI)
qed

section \<open>The record loop of the individual script (C1)\<close>

lemma triplets_total:
  assumes "fst (parse_dscore_line l) \<noteq> []"
  shows "snd (parse_dscore_line l) \<noteq> None"
proof -
  let ?t = "dscore_text l"
  from assms have "finditer_from D_SCORE_RK 0 (drop 0 ?t) \<noteq> []"
    by (simp add: parse_dscore_line_def Let_def finditer_def)
  then have "\<not> no_match_from D_SCORE_RK ?t 0"
    using finditer_from_drop_Nil[of 0 ?t D_SCORE_RK] by simp
  then obtain j where j: "j \<le> length ?t" "rxm D_SCORE_RK Some (j, drop j ?t, []) \<noteq> None"
    by (auto simp: no_match_from_iff match_at_None)
  then have "rxm FLOAT3 Some (j, drop j ?t, []) \<noteq> None" by (simp add: D_SCORE_RK_FLOAT3)
  with j(1) have "\<not> no_match_from FLOAT3 ?t 0"
    by (auto simp: no_match_from_iff match_at_None)
  then show ?thesis by (simp add: parse_dscore_line_def Let_def total_of_None)
qed

lemma ind_record_complete:
  "complete_record (ind_record m d_trips (Some v) epen)"
  by (simp add: complete_record_def cols_def APPARATUS_def ind_record_def ind_set_app_def
        Let_def known_def)

lemma ind_block_Some:
  "ind_block lines i = Some rec \<Longrightarrow> complete_record rec"
proof -
  assume a: "ind_block lines i = Some rec"
  then obtain m epen where r: "rec = ind_record m (fst (parse_dscore_line (lines ! (i - 1))))
      (snd (parse_dscore_line (lines ! (i - 1)))) epen"
    and ne: "fst (parse_dscore_line (lines ! (i - 1))) \<noteq> []"
    by (auto simp: ind_block_def Let_def split: option.splits if_splits)
  from triplets_total[OF ne] obtain v where "snd (parse_dscore_line (lines ! (i - 1))) = Some v"
    by auto
  with r show ?thesis by (simp add: ind_record_complete)
qed

lemma ind_block_iff:
  "i < length lines \<Longrightarrow>
   (ind_block lines i \<noteq> None) \<longleftrightarrow>
     (re_match IDENTITY_RE (lines ! i) \<noteq> None \<and> 1 \<le> i \<and> i + 1 < length lines
      \<and> 4 \<le> length (fst (parse_dscore_line (lines ! (i - 1))))
      \<and> (\<exists>g. parse_e_pen_line (lines ! (i + 1)) = Some g \<and> 4 \<le> length g))"
  by (auto simp: ind_block_def Let_def split: option.splits)

text \<open>
  C1.  In the record loop of the individual script, the round at position \<open>i\<close> of the
  filtered lines appends a record if and only if line \<open>i\<close> matches the identity pattern,
  lines \<open>i - 1\<close> and \<open>i + 1\<close> exist, line \<open>i - 1\<close> gives at least four triplets and line
  \<open>i + 1\<close> gives at least four Execution/Penalty groups.  The records are exactly those of
  the rounds that append one, in order; and every record has a value (never \<^verbatim>\<open>None\<close>, never
  the unknown marker) under every column, Total included: no partial record.
\<close>

theorem ind_block_spec:
  "(i < length lines \<longrightarrow>
      ((ind_block lines i \<noteq> None) \<longleftrightarrow>
         (re_match IDENTITY_RE (lines ! i) \<noteq> None \<and> 1 \<le> i \<and> i + 1 < length lines
          \<and> 4 \<le> length (fst (parse_dscore_line (lines ! (i - 1))))
          \<and> (\<exists>g. parse_e_pen_line (lines ! (i + 1)) = Some g \<and> 4 \<le> length g))))
   \<and> ind_records lines = map (\<lambda>i. the (ind_block lines i))
                              [i \<leftarrow> [0..<length lines]. ind_block lines i \<noteq> None]
   \<and> list_all complete_record (ind_records lines)"
proof (intro conjI impI)
  assume "i < length lines"
  then show "(ind_block lines i \<noteq> None) \<longleftrightarrow>
         (re_match IDENTITY_RE (lines ! i) \<noteq> None \<and> 1 \<le> i \<and> i + 1 < length lines
          \<and> 4 \<le> length (fst (parse_dscore_line (lines ! (i - 1))))
          \<and> (\<exists>g. parse_e_pen_line (lines ! (i + 1)) = Some g \<and> 4 \<le> length g))"
    by (rule ind_block_iff)
next
  show "ind_records lines = map (\<lambda>i. the (ind_block lines i))
                              [i \<leftarrow> [0..<length lines]. ind_block lines i \<noteq> None]"
    by (simp add: ind_records_def List.map_filter_def comp_def)
next
  show "list_all complete_record (ind_records lines)"
    by (auto simp: ind_records_def List.map_filter_def list_all_iff intro: ind_block_Some)
qed

lemma ex_dscore:
  "parse_dscore_line ''6.40015.766 (1) 5.900 14.500 (2) 6.100 14.033 (3) 5.800 14.100 (4) 58.399''
   = ([(32 / 5, 7883 / 500, 1), (59 / 10, 29 / 2, 2), (61 / 10, 14033 / 1000, 3), (29 / 5, 141 / 10, 4)],
      Some (58399 / 1000))"
  by (simp add: parse_dscore_line_def dscore_text_def deglue_def glue_behind_def total_of_def
        finditer_def finditer_from.simps D_SCORE_RK_def FLOAT3_def rx_eval triplet_of_def
        re_group_def py_int_def norm_str_def sub_ws.simps num_eval)

lemma ex_ident:
  "re_match IDENTITY_RE ''1 101 SMITH Jane USA D E''
   = Some [(''noc'', ''USA''), (''name'', ''SMITH Jane''), (''bib'', ''101''), (''rank'', ''1'')]"
  by (simp add: IDENTITY_RE_def rx_eval)

lemma ex_e_pen_line:
  "parse_e_pen_line ''8.500 8.000 -0.100 9.000 8.200''
   = Some [(17 / 2, 0), (8, - (1 / 10)), (9, 0), (41 / 5, 0)]"
  by (simp add: parse_e_pen_line_def str_eval sub_ws.simps numeral_eq_Suc
        is_float_def IS_FLOAT_def rx_eval num_eval)

theorem ind_block_spec_witness:
  "ind_block [''6.40015.766 (1) 5.900 14.500 (2) 6.100 14.033 (3) 5.800 14.100 (4) 58.399'',
              ''1 101 SMITH Jane USA D E'', ''8.500 8.000 -0.100 9.000 8.200''] 1 \<noteq> None
   \<and> ind_block [''6.40015.766 (1) 5.900 14.500 (2) 6.100 14.033 (3) 5.800 14.100 (4) 58.399'',
                ''1 101 SMITH Jane USA D E''] 1 = None
   \<and> ind_block [''6.40015.766 (1) 5.900 14.500 (2) 58.399'',
                ''1 101 SMITH Jane USA D E'', ''8.500 8.000 -0.100 9.000 8.200''] 1 = None"
proof -
  let ?d = "''6.40015.766 (1) 5.900 14.500 (2) 6.100 14.033 (3) 5.800 14.100 (4) 58.399''"
  let ?s = "''6.40015.766 (1) 5.900 14.500 (2) 58.399''"
  let ?n = "''1 101 SMITH Jane USA D E''"
  let ?e = "''8.500 8.000 -0.100 9.000 8.200''"
  have s: "fst (parse_dscore_line ?s) = [(32 / 5, 7883 / 500, 1), (59 / 10, 29 / 2, 2)]"
    by (simp add: parse_dscore_line_def dscore_text_def deglue_def glue_behind_def
          finditer_def finditer_from.simps D_SCORE_RK_def rx_eval triplet_of_def
          re_group_def py_int_def norm_str_def sub_ws.simps num_eval)
  from ind_block_spec[of 1 "[?d, ?n, ?e]"] have "ind_block [?d, ?n, ?e] 1 \<noteq> None"
    by (simp add: ex_ident ex_dscore ex_e_pen_line)
  moreover from ind_block_spec[of 1 "[?d, ?n]"] have "ind_block [?d, ?n] 1 = None"
    by simp
  moreover from ind_block_spec[of 1 "[?s, ?n, ?e]"] have "ind_block [?s, ?n, ?e] 1 = None"
    by (simp add: ex_ident s ex_e_pen_line)
  ultimately show ?thesis by simp
qed

section \<open>The record loop of the team script (C9, C6, C2)\<close>

subsection \<open>The forward scan\<close>

lemma next_hdr_ge: "j \<le> next_hdr lines j"
  by (simp add: next_hdr_def)

lemma next_hdr_le: "j \<le> length lines \<Longrightarrow> next_hdr lines j \<le> length lines"
proof -
  assume "j \<le> length lines"
  moreover have "length (takeWhile (\<lambda>l. \<not> (is_ath_hdr l \<or> is_team_hdr l)) (drop j lines))
        \<le> length (drop j lines)" by (rule length_takeWhile_le)
  ultimately show ?thesis by (simp add: next_hdr_def)
qed

lemma next_hdr_before:
  assumes "j \<le> i" "i < next_hdr lines j"
  shows "\<not> (is_ath_hdr (lines ! i) \<or> is_team_hdr (lines ! i))"
proof -
  let ?P = "\<lambda>l. \<not> (is_ath_hdr l \<or> is_team_hdr l)"
  let ?tw = "takeWhile ?P (drop j lines)"
  from assms have k: "i - j < length ?tw" by (simp add: next_hdr_def)
  then have "?tw ! (i - j) \<in> set ?tw" by simp
  then have "?P (?tw ! (i - j))" by (rule set_takeWhileD[THEN conjunct2])
  moreover have "?tw ! (i - j) = drop j lines ! (i - j)" using k by (rule takeWhile_nth)
  moreover have "i - j < length (drop j lines)"
    using k length_takeWhile_le[of ?P "drop j lines"] by simp
  ultimately show ?thesis using assms(1) by simp
qed

lemma next_hdr_at:
  assumes "next_hdr lines j < length lines"
  shows "is_ath_hdr (lines ! next_hdr lines j) \<or> is_team_hdr (lines ! next_hdr lines j)"
proof -
  let ?P = "\<lambda>l. \<not> (is_ath_hdr l \<or> is_team_hdr l)"
  let ?tw = "takeWhile ?P (drop j lines)"
  from assms have "length ?tw < length (drop j lines)" by (simp add: next_hdr_def)
  then have "\<not> ?P (drop j lines ! length ?tw)" by (rule nth_length_takeWhile)
  moreover have "drop j lines ! length ?tw = lines ! next_hdr lines j"
    using assms by (simp add: next_hdr_def)
  ultimately show ?thesis by simp
qed

lemma scan_e_eq:
  "j \<le> length lines \<Longrightarrow>
   scan_e lines j e =
     (next_hdr lines j, e @ concat (map floats_from (lines_between lines j (next_hdr lines j))))"
proof (induction lines j e rule: scan_e.induct)
  case (1 lines j e)
  let ?P = "\<lambda>l. \<not> (is_ath_hdr l \<or> is_team_hdr l)"
  show ?case
  proof (cases "j < length lines")
    case False
    with 1(2) have "j = length lines" by simp
    then show ?thesis by (subst scan_e.simps) (simp add: next_hdr_def lines_between_def)
  next
    case True
    then have d: "drop j lines = lines ! j # drop (Suc j) lines" by (simp add: Cons_nth_drop_Suc)
    show ?thesis
    proof (cases "?P (lines ! j)")
      case False
      then have "next_hdr lines j = j" by (simp add: next_hdr_def d)
      then show ?thesis using True False
        by (subst scan_e.simps) (auto simp: Let_def lines_between_def)
    next
      case P: True
      have n: "next_hdr lines j = next_hdr lines (Suc j)" using P by (simp add: next_hdr_def d)
      have ge: "Suc j \<le> next_hdr lines (Suc j)" by (rule next_hdr_ge)
      then have m: "next_hdr lines (Suc j) - j = Suc (next_hdr lines (Suc j) - Suc j)"
        by simp
      have b: "lines_between lines j (next_hdr lines (Suc j))
               = lines ! j # lines_between lines (Suc j) (next_hdr lines (Suc j))"
        by (simp add: lines_between_def d m)
      have "scan_e lines j e = scan_e lines (j + 1) (e @ floats_from (lines ! j))"
        using True P by (subst scan_e.simps) (auto simp: Let_def)
      also have "\<dots> = (next_hdr lines (Suc j), (e @ floats_from (lines ! j))
           @ concat (map floats_from (lines_between lines (Suc j) (next_hdr lines (Suc j)))))"
        using 1(1)[OF True refl] P True by simp
      finally show ?thesis by (simp add: n b)
    qed
  qed
qed

subsection \<open>One round\<close>

lemma floats_from_floats: "\<forall>t\<in>set (floats_from s). is_float t"
  by (simp add: floats_from_def)

lemma parse_ds_pairs_floats_from:
  "parse_ds_pairs (floats_from s) = Inr (ds_loop (map decimal_value (floats_from s)) 0 [])"
  by (simp add: parse_ds_pairs_def float_list_ok floats_from_floats)

lemma team_step_team:
  "is_team_hdr (lines ! idx st) \<Longrightarrow>
   team_step lines st =
     Inr (st\<lparr>ctx_rank := Some (py_int (re_group (the (re_match TEAM_HDR (lines ! idx st))) ''trank'')),
             ctx_noc := Some (re_group (the (re_match TEAM_HDR (lines ! idx st))) ''noc''),
             idx := idx st + 1\<rparr>)"
  by (auto simp: team_step_def is_team_hdr_def Let_def)

lemma team_step_skip:
  "\<not> is_team_hdr (lines ! idx st) \<Longrightarrow> \<not> (is_ath_hdr (lines ! idx st) \<and> truthy (ctx_noc st)) \<Longrightarrow>
   team_step lines st = Inr (st\<lparr>idx := idx st + 1\<rparr>)"
  by (auto simp: team_step_def is_team_hdr_def is_ath_hdr_def Let_def split: option.splits)

lemma team_step_ath:
  assumes "\<not> is_team_hdr (lines ! idx st)" "is_ath_hdr (lines ! idx st)" "truthy (ctx_noc st)"
    "idx st < length lines"
  shows "team_step lines st =
     Inr (st\<lparr>rows := rows st @
               [team_record (ctx_rank st)
                  (py_int (re_group (the (re_match ATH_HDR (lines ! idx st))) ''bib''))
                  (py_strip (re_group (the (re_match ATH_HDR (lines ! idx st))) ''name''))
                  (the (ctx_noc st))
                  (ds_loop (map decimal_value
                     (floats_from (re_group (the (re_match ATH_HDR (lines ! idx st))) ''trail''))) 0 [])
                  (parse_e_pen (concat (map floats_from
                     (lines_between lines (idx st + 1) (next_hdr lines (idx st + 1))))) 4)],
             idx := next_hdr lines (idx st + 1)\<rparr>)"
proof -
  have "scan_e lines (idx st + 1) [] = (next_hdr lines (idx st + 1),
      concat (map floats_from (lines_between lines (idx st + 1) (next_hdr lines (idx st + 1)))))"
    using scan_e_eq[of "idx st + 1" lines "[]"] assms(4) by simp
  then show ?thesis using assms(1-3)
    by (auto simp: team_step_def is_team_hdr_def is_ath_hdr_def Let_def
          parse_ds_pairs_floats_from)
qed

lemma team_step_total:
  assumes "idx st < length lines"
  shows "\<exists>st'. team_step lines st = Inr st' \<and> idx st < idx st' \<and> idx st' \<le> length lines
              \<and> length (rows st') \<le> length (rows st) + 1"
proof (cases "is_team_hdr (lines ! idx st)")
  case True
  then show ?thesis using assms by (simp add: team_step_team)
next
  case False
  show ?thesis
  proof (cases "is_ath_hdr (lines ! idx st) \<and> truthy (ctx_noc st)")
    case nope: False
    then show ?thesis using False assms by (simp add: team_step_skip)
  next
    case True
    have "idx st + 1 \<le> next_hdr lines (idx st + 1)" by (rule next_hdr_ge)
    moreover have "next_hdr lines (idx st + 1) \<le> length lines"
      using assms by (intro next_hdr_le) simp
    ultimately show ?thesis using True False assms by (simp add: team_step_ath)
  qed
qed

lemma team_reach_inv:
  "team_reach lines st \<Longrightarrow>
   idx st \<le> length lines \<and> (ctx_noc st \<noteq> None \<longrightarrow> (\<exists>j<idx st. is_team_hdr (lines ! j)))"
proof (induction rule: team_reach.induct)
  case reach_init
  show ?case by (simp add: team_init_def)
next
  case (reach_step st st')
  from team_step_total[OF reach_step(2)] reach_step(3) have le: "idx st' \<le> length lines"
    "idx st < idx st'" by auto
  show ?case
  proof (cases "is_team_hdr (lines ! idx st)")
    case True
    then have "\<exists>j<idx st'. is_team_hdr (lines ! j)" using le(2) by blast
    then show ?thesis using le by simp
  next
    case False
    have "ctx_noc st' = ctx_noc st"
    proof (cases "is_ath_hdr (lines ! idx st) \<and> truthy (ctx_noc st)")
      case True
      then show ?thesis using False reach_step(2,3) by (auto simp: team_step_ath)
    next
      case nope: False
      then show ?thesis using False reach_step(3) by (auto simp: team_step_skip)
    qed
    then show ?thesis using reach_step.IH le by (metis less_trans)
  qed
qed

subsection \<open>Example lines\<close>

lemma ex_team_hdr:
  "re_match TEAM_HDR ''1 USA - United States 43.100(1) 44.200(2) 41.300(1) 42.000(3) 170.600''
   = Some [(''ttotal'', ''170.600''), (''fx'', ''42.000''), (''bb'', ''41.300''),
           (''ub'', ''44.200''), (''v'', ''43.100''), (''noc'', ''USA''), (''trank'', ''1'')]"
  by (simp add: TEAM_HDR_def rx_eval)

lemma ex_hdrs:
  "\<not> is_team_hdr ''101 SMITH Jane D E 5.300 13.233''"
  "is_ath_hdr ''101 SMITH Jane D E 5.300 13.233''"
  "\<not> is_team_hdr ''8.500 -0.100''"
  "\<not> is_ath_hdr ''8.500 -0.100''"
  "is_ath_hdr ''102 LEE Ann D E''"
  by (simp_all add: is_team_hdr_def is_ath_hdr_def TEAM_HDR_def ATH_HDR_def rx_eval)

subsection \<open>The loop\<close>

lemma team_run_loop:
  "length lines - idx st \<le> n \<Longrightarrow> team_run n lines st = Some (team_loop lines st)"
proof (induction n arbitrary: st)
  case 0
  then have "\<not> idx st < length lines" by simp
  then show ?case by (subst team_loop.simps) simp
next
  case (Suc n)
  show ?case
  proof (cases "idx st < length lines")
    case False
    then show ?thesis by (subst team_loop.simps) simp
  next
    case True
    from team_step_total[OF True] obtain st' where st': "team_step lines st = Inr st'"
      "idx st < idx st'" by blast
    then have "length lines - idx st' \<le> n" using Suc.prems by simp
    from Suc.IH[OF this] show ?thesis using True st'(1)
      by (subst team_loop.simps) simp
  qed
qed

lemma team_loop_result:
  "\<exists>st'. team_loop lines st = Inr st'
         \<and> length (rows st') \<le> length (rows st) + (length lines - idx st)
         \<and> (team_reach lines st \<longrightarrow> team_reach lines st')"
proof (induction lines st rule: team_loop.induct)
  case (1 lines st)
  show ?case
  proof (cases "idx st < length lines")
    case False
    then have "team_loop lines st = Inr st" by (subst team_loop.simps) simp
    then show ?thesis by simp
  next
    case True
    from team_step_total[OF True] obtain st1 where st1: "team_step lines st = Inr st1"
      "idx st < idx st1" "idx st1 \<le> length lines" "length (rows st1) \<le> length (rows st) + 1"
      by blast
    from 1[OF True st1(1)] obtain st' where st': "team_loop lines st1 = Inr st'"
      "length (rows st') \<le> length (rows st1) + (length lines - idx st1)"
      "team_reach lines st1 \<longrightarrow> team_reach lines st'" by blast
    have "team_loop lines st = Inr st'" using True st1(1) st'(1)
      by (subst team_loop.simps) simp
    moreover have "length (rows st') \<le> length (rows st) + (length lines - idx st)"
      using st'(2) st1(2,3,4) by simp
    moreover have "team_reach lines st \<longrightarrow> team_reach lines st'"
      using st'(3) reach_step[OF _ True st1(1)] by blast
    ultimately show ?thesis by blast
  qed
qed

lemma team_step_rows_ge:
  "team_step lines st = Inr st' \<Longrightarrow> length (rows st) \<le> length (rows st')"
  by (auto simp: team_step_def Let_def split: option.splits if_splits sum.splits)

lemma team_trace_ge:
  "s \<in> set (team_trace n lines st) \<Longrightarrow> idx st \<le> idx s"
proof (induction n arbitrary: st)
  case 0
  then show ?case by simp
next
  case (Suc n)
  show ?case
  proof (cases "idx st < length lines")
    case False
    with Suc.prems show ?thesis by simp
  next
    case True
    from team_step_total[OF True] obtain st' where st': "team_step lines st = Inr st'"
      "idx st < idx st'" by blast
    from Suc.prems True st'(1) consider "s = st" | "s \<in> set (team_trace n lines st')" by auto
    then show ?thesis
    proof cases
      case 1 then show ?thesis by simp
    next
      case 2
      from Suc.IH[OF 2] st'(2) show ?thesis by simp
    qed
  qed
qed

lemma team_trace_sorted:
  "sorted_wrt (<) (map idx (team_trace n lines st))"
proof (induction n arbitrary: st)
  case 0
  show ?case by simp
next
  case (Suc n)
  show ?case
  proof (cases "idx st < length lines")
    case False
    then show ?thesis by simp
  next
    case True
    from team_step_total[OF True] obtain st' where st': "team_step lines st = Inr st'"
      "idx st < idx st'" by blast
    have "\<forall>s\<in>set (team_trace n lines st'). idx st < idx s"
      using team_trace_ge[of _ n lines st'] st'(2) by fastforce
    then show ?thesis using True st'(1) Suc.IH[of st'] by simp
  qed
qed

lemma team_trace_rows:
  "length lines - idx st \<le> n \<Longrightarrow>
   \<exists>st'. team_loop lines st = Inr st'
        \<and> length (rows st') = length (rows st)
             + length (filter (initiates lines) (team_trace n lines st))"
proof (induction n arbitrary: st)
  case 0
  then have "\<not> idx st < length lines" by simp
  then have "team_loop lines st = Inr st" by (subst team_loop.simps) simp
  then show ?case by simp
next
  case (Suc n)
  show ?case
  proof (cases "idx st < length lines")
    case False
    then have "team_loop lines st = Inr st" by (subst team_loop.simps) simp
    then show ?thesis using False by simp
  next
    case True
    from team_step_total[OF True] obtain st1 where st1: "team_step lines st = Inr st1"
      "idx st < idx st1" "length (rows st1) \<le> length (rows st) + 1" by blast
    from team_step_rows_ge[OF st1(1)] have ge: "length (rows st) \<le> length (rows st1)" .
    have "length lines - idx st1 \<le> n" using Suc.prems st1(2) by simp
    from Suc.IH[OF this] obtain st' where st': "team_loop lines st1 = Inr st'"
      "length (rows st') = length (rows st1)
         + length (filter (initiates lines) (team_trace n lines st1))" by blast
    have l: "team_loop lines st = Inr st'" using True st1(1) st'(1)
      by (subst team_loop.simps) simp
    have i: "length (rows st1) = length (rows st) + (if initiates lines st then 1 else 0)"
      using st1(1,3) ge by (auto simp: initiates_def)
    have "length (rows st') = length (rows st)
             + length (filter (initiates lines) (team_trace (Suc n) lines st))"
      using st'(2) i True st1(1) by simp
    with l show ?thesis by blast
  qed
qed

text \<open>
  C9.  For every list of lines and every state \<open>st\<close> of the main loop of \<^verbatim>\<open>parse_pdf_team\<close>:
  \<^item> a round that starts with the index inside the lines does not raise, leaves the index
    strictly greater and at most the number of lines, and appends at most one record;
  \<^item> the loop started in \<open>st\<close> is over after at most as many rounds as there are lines from
    the index on: cut off after that many rounds it has returned what the loop returns;
  \<^item> the loop returns a state, with at most one more record for each line from the index on;
  \<^item> the whole scan returns its records, at most one for each line;
  \<^item> the current lines of the successive rounds have strictly increasing indices, so no
    line is the current line of two rounds;
  \<^item> the loop appends exactly one record for each round that initiates one: as many records
    as there are rounds, each with a line of its own, that append.
\<close>

theorem team_loop_progress:
  "(idx st < length lines \<longrightarrow>
      (\<exists>st'. team_step lines st = Inr st' \<and> idx st < idx st' \<and> idx st' \<le> length lines
            \<and> length (rows st') \<le> length (rows st) + 1))
   \<and> team_run (length lines - idx st) lines st = Some (team_loop lines st)
   \<and> (\<exists>st'. team_loop lines st = Inr st'
            \<and> length (rows st') \<le> length (rows st) + (length lines - idx st))
   \<and> (\<exists>rs. team_records lines = Inr rs \<and> length rs \<le> length lines)
   \<and> sorted_wrt (<) (map idx (team_trace n lines st))
   \<and> (\<exists>st'. team_loop lines st = Inr st'
            \<and> length (rows st') = length (rows st)
                 + length (filter (initiates lines) (team_trace (length lines - idx st) lines st)))"
proof (intro conjI impI)
  assume "idx st < length lines"
  then show "\<exists>st'. team_step lines st = Inr st' \<and> idx st < idx st' \<and> idx st' \<le> length lines
            \<and> length (rows st') \<le> length (rows st) + 1"
    by (rule team_step_total)
next
  show "team_run (length lines - idx st) lines st = Some (team_loop lines st)"
    by (rule team_run_loop) simp
next
  show "\<exists>st'. team_loop lines st = Inr st'
            \<and> length (rows st') \<le> length (rows st) + (length lines - idx st)"
    using team_loop_result[of lines st] by blast
next
  from team_loop_result[of lines team_init] obtain st' where
    "team_loop lines team_init = Inr st'"
    "length (rows st') \<le> length (rows team_init) + (length lines - idx team_init)" by blast
  then show "\<exists>rs. team_records lines = Inr rs \<and> length rs \<le> length lines"
    by (simp add: team_records_def team_init_def)
next
  show "sorted_wrt (<) (map idx (team_trace n lines st))" by (rule team_trace_sorted)
next
  show "\<exists>st'. team_loop lines st = Inr st'
            \<and> length (rows st') = length (rows st)
                 + length (filter (initiates lines) (team_trace (length lines - idx st) lines st))"
    by (rule team_trace_rows) simp
qed

theorem team_loop_progress_witness:
  "map idx (team_trace 2 [''1 USA - United States 43.100(1) 44.200(2) 41.300(1) 42.000(3) 170.600'',
                          ''101 SMITH Jane D E 5.300 13.233''] team_init) = [0, 1]
   \<and> filter (initiates [''1 USA - United States 43.100(1) 44.200(2) 41.300(1) 42.000(3) 170.600'',
                         ''101 SMITH Jane D E 5.300 13.233''])
        (team_trace 2 [''1 USA - United States 43.100(1) 44.200(2) 41.300(1) 42.000(3) 170.600'',
                          ''101 SMITH Jane D E 5.300 13.233''] team_init)
      = [\<lparr>idx = 1, ctx_rank = Some 1, ctx_noc = Some ''USA'', rows = []\<rparr>]
   \<and> (\<exists>rs. team_records [''1 USA - United States 43.100(1) 44.200(2) 41.300(1) 42.000(3) 170.600'',
                          ''101 SMITH Jane D E 5.300 13.233''] = Inr rs \<and> length rs = 1)
   \<and> team_run 2 [''1 USA - United States 43.100(1) 44.200(2) 41.300(1) 42.000(3) 170.600'',
                          ''101 SMITH Jane D E 5.300 13.233''] team_init
      = Some (team_loop [''1 USA - United States 43.100(1) 44.200(2) 41.300(1) 42.000(3) 170.600'',
                          ''101 SMITH Jane D E 5.300 13.233''] team_init)"
proof -
  let ?L = "[''1 USA - United States 43.100(1) 44.200(2) 41.300(1) 42.000(3) 170.600'',
             ''101 SMITH Jane D E 5.300 13.233'']"
  let ?st1 = "\<lparr>idx = 1, ctx_rank = Some 1, ctx_noc = Some ''USA'', rows = []\<rparr>"
  have s0: "team_step ?L team_init = Inr ?st1"
    by (simp add: team_step_def team_init_def ex_team_hdr re_group_def py_int_def
          nat_of_digits_def digit_val_def)
  have n: "next_hdr ?L (idx ?st1 + 1) = 2" by (simp add: next_hdr_def)
  have "\<not> is_team_hdr (?L ! idx ?st1)" "is_ath_hdr (?L ! idx ?st1)" "truthy (ctx_noc ?st1)"
    "idx ?st1 < length ?L"
    by (simp_all add: ex_hdrs truthy_def)
  from team_step_ath[OF this] obtain r where s1: "team_step ?L ?st1 = Inr (?st1\<lparr>rows := rows ?st1 @ [r], idx := 2\<rparr>)"
    unfolding n by blast
  have z: "idx team_init = 0" "rows team_init = []" by (simp_all add: team_init_def)
  have i0: "\<not> initiates ?L team_init"
    by (simp add: initiates_def s0 z del: One_nat_def)
  have i1: "initiates ?L ?st1"
    by (simp add: initiates_def s1 del: One_nat_def)
  have tr: "team_trace 2 ?L team_init = [team_init, ?st1]"
    by (simp add: numeral_2_eq_2 s0 s1 z del: One_nat_def)
  have a: "map idx (team_trace 2 ?L team_init) = [0, 1]"
    unfolding tr by (simp add: z)
  have b: "filter (initiates ?L) (team_trace 2 ?L team_init) = [?st1]"
    unfolding tr using i0 i1 by simp
  note th = team_loop_progress[of team_init ?L 2]
  have len: "length ?L - idx team_init = 2" by (simp add: team_init_def)
  from th[THEN conjunct2, THEN conjunct2, THEN conjunct2, THEN conjunct2, THEN conjunct2]
  obtain st' where st': "team_loop ?L team_init = Inr st'"
    "length (rows st') = length (rows team_init)
       + length (filter (initiates ?L) (team_trace (length ?L - idx team_init) ?L team_init))"
    by (elim exE conjE)
  from st'(2) have "length (rows st') = 1" unfolding len b by (simp add: team_init_def)
  with st'(1) have c: "\<exists>rs. team_records ?L = Inr rs \<and> length rs = 1"
    by (simp add: team_records_def)
  have d: "team_run 2 ?L team_init = Some (team_loop ?L team_init)"
    using th[THEN conjunct2, THEN conjunct1] unfolding len .
  from a b c d show ?thesis by (intro conjI)
qed

subsection \<open>The round of an athlete header\<close>

text \<open>
  C6.  For every state \<open>st\<close> the main loop of \<^verbatim>\<open>parse_pdf_team\<close> is in at the start of a round,
  with the index inside the lines, the round does not raise, and:
  \<^item> when the current line is no team header, is an athlete header, and \<^verbatim>\<open>ctx_noc\<close> is set,
    then a team header stands at an earlier index; the round leaves the index at the first
    index after the current one whose line is a team header or an athlete header (at the
    number of lines when there is none), so no line strictly in between is a header and the
    line the index is left at, if there is one, is a header: it is the current line of the
    next round; and the round appends one record, whose E/Pen groups are read from the
    number tokens of exactly the lines in between;
  \<^item> in every other case, so at an athlete header with no team header before it, the round
    appends no record and moves the index one line on.
\<close>

theorem team_step_spec:
  assumes "team_reach lines st" "idx st < length lines"
  shows "\<exists>st'. team_step lines st = Inr st' \<and>
     (if \<not> is_team_hdr (lines ! idx st) \<and> is_ath_hdr (lines ! idx st) \<and> truthy (ctx_noc st)
      then (\<exists>j<idx st. is_team_hdr (lines ! j))
           \<and> idx st' = next_hdr lines (idx st + 1)
           \<and> idx st < idx st' \<and> idx st' \<le> length lines
           \<and> (\<forall>i. idx st < i \<and> i < idx st' \<longrightarrow> \<not> (is_ath_hdr (lines ! i) \<or> is_team_hdr (lines ! i)))
           \<and> (idx st' < length lines \<longrightarrow> is_ath_hdr (lines ! idx st') \<or> is_team_hdr (lines ! idx st'))
           \<and> (\<exists>cr bib name noc ds.
                 rows st' = rows st @
                   [team_record cr bib name noc ds
                      (parse_e_pen (concat (map floats_from
                         (lines_between lines (idx st + 1) (idx st')))) 4)])
      else rows st' = rows st \<and> idx st' = idx st + 1)"
proof (cases "\<not> is_team_hdr (lines ! idx st) \<and> is_ath_hdr (lines ! idx st) \<and> truthy (ctx_noc st)")
  case True
  let ?stop = "next_hdr lines (idx st + 1)"
  from True have "ctx_noc st \<noteq> None" by (auto simp: truthy_def split: option.splits)
  with team_reach_inv[OF assms(1)] have seen: "\<exists>j<idx st. is_team_hdr (lines ! j)" by blast
  have ge: "idx st + 1 \<le> ?stop" by (rule next_hdr_ge)
  have le: "?stop \<le> length lines" using assms(2) by (intro next_hdr_le) simp
  have before: "\<forall>i. idx st < i \<and> i < ?stop \<longrightarrow> \<not> (is_ath_hdr (lines ! i) \<or> is_team_hdr (lines ! i))"
    using next_hdr_before[of "idx st + 1" _ lines] by simp
  have at: "?stop < length lines \<longrightarrow> is_ath_hdr (lines ! ?stop) \<or> is_team_hdr (lines ! ?stop)"
    using next_hdr_at[of lines "idx st + 1"] by blast
  note step = team_step_ath[OF _ _ _ assms(2), of] 
  from True have s: "team_step lines st = Inr (st\<lparr>rows := rows st @
               [team_record (ctx_rank st)
                  (py_int (re_group (the (re_match ATH_HDR (lines ! idx st))) ''bib''))
                  (py_strip (re_group (the (re_match ATH_HDR (lines ! idx st))) ''name''))
                  (the (ctx_noc st))
                  (ds_loop (map decimal_value
                     (floats_from (re_group (the (re_match ATH_HDR (lines ! idx st))) ''trail''))) 0 [])
                  (parse_e_pen (concat (map floats_from
                     (lines_between lines (idx st + 1) ?stop))) 4)],
             idx := ?stop\<rparr>)"
    using step by blast
  show ?thesis
    unfolding s using True seen ge le before at by (simp del: One_nat_def) blast
next
  case False
  show ?thesis
  proof (cases "is_team_hdr (lines ! idx st)")
    case True
    then show ?thesis by (simp add: team_step_team)
  next
    case nt: False
    with False have "\<not> (is_ath_hdr (lines ! idx st) \<and> truthy (ctx_noc st))" by blast
    from team_step_skip[OF nt this] show ?thesis using False by simp
  qed
qed

theorem team_step_spec_witness:
  "team_step [''1 USA - United States 43.100(1) 44.200(2) 41.300(1) 42.000(3) 170.600'',
              ''101 SMITH Jane D E 5.300 13.233'', ''8.500 -0.100'', ''102 LEE Ann D E'']
             team_init
   = Inr \<lparr>idx = 1, ctx_rank = Some 1, ctx_noc = Some ''USA'', rows = []\<rparr>
   \<and> (\<exists>st'. team_step [''1 USA - United States 43.100(1) 44.200(2) 41.300(1) 42.000(3) 170.600'',
              ''101 SMITH Jane D E 5.300 13.233'', ''8.500 -0.100'', ''102 LEE Ann D E'']
             \<lparr>idx = 1, ctx_rank = Some 1, ctx_noc = Some ''USA'', rows = []\<rparr> = Inr st'
          \<and> idx st' = 3 \<and> length (rows st') = 1)
   \<and> (\<exists>st'. team_step [''101 SMITH Jane D E 5.300 13.233'', ''8.500 -0.100''] team_init = Inr st'
          \<and> idx st' = 1 \<and> rows st' = [])"
proof -
  let ?L = "[''1 USA - United States 43.100(1) 44.200(2) 41.300(1) 42.000(3) 170.600'',
              ''101 SMITH Jane D E 5.300 13.233'', ''8.500 -0.100'', ''102 LEE Ann D E'']"
  let ?st1 = "\<lparr>idx = 1, ctx_rank = Some 1, ctx_noc = Some ''USA'', rows = []\<rparr>"
  have s0: "team_step ?L team_init = Inr ?st1"
    by (simp add: team_step_def team_init_def ex_team_hdr re_group_def py_int_def
          nat_of_digits_def digit_val_def)
  have r1: "team_reach ?L ?st1"
    using reach_step[OF reach_init _ s0] by (simp add: team_init_def)
  have lt: "idx ?st1 < length ?L" by simp
  have n: "next_hdr ?L (Suc (Suc 0)) = 3" "next_hdr ?L 2 = 3"
    by (simp_all add: next_hdr_def ex_hdrs)
  have A: "\<exists>st'. team_step ?L ?st1 = Inr st' \<and> idx st' = 3 \<and> length (rows st') = 1"
    using team_step_spec[OF r1 lt] by (auto simp: ex_hdrs truthy_def n)
  let ?M = "[''101 SMITH Jane D E 5.300 13.233'', ''8.500 -0.100'']"
  have r0: "team_reach ?M team_init" by (rule reach_init)
  have lt0: "idx team_init < length ?M" by (simp add: team_init_def)
  have B: "\<exists>st'. team_step ?M team_init = Inr st' \<and> idx st' = 1 \<and> rows st' = []"
    using team_step_spec[OF r0 lt0] by (auto simp: team_init_def truthy_def)
  from s0 A B show ?thesis by (intro conjI)
qed

subsection \<open>The records\<close>







section \<open>The column alignment of \<^verbatim>\<open>events.py\<close> (C7)\<close>

lemma foldl_add_col_concat:
  "foldl (\<lambda>master d. foldl add_col master (columns d)) m ds
   = foldl add_col m (concat (map columns ds))"
  by (induction ds arbitrary: m) simp_all

lemma master_cols_concat: "master_cols bs = foldl add_col [] (concat (map columns bs))"
  by (simp add: master_cols_def foldl_add_col_concat)

lemma col_pos_append_in: "a \<in> set xs \<Longrightarrow> col_pos (xs @ ys) a = col_pos xs a"
  by (induction xs) (auto simp: col_pos_def)

lemma col_pos_lt: "a \<in> set xs \<Longrightarrow> col_pos xs a < length xs"
  by (induction xs) (auto simp: col_pos_def)

lemma col_pos_snoc_new: "c \<notin> set xs \<Longrightarrow> col_pos (xs @ [c]) c = length xs"
  by (induction xs) (auto simp: col_pos_def)

lemma first_seen:
  "set (foldl add_col [] xs) = set xs \<and> distinct (foldl add_col [] xs)
   \<and> sorted_wrt (\<lambda>a b. col_pos xs a < col_pos xs b) (foldl add_col [] xs)"
proof (induction xs rule: rev_induct)
  case Nil
  show ?case by simp
next
  case (snoc c xs)
  let ?M = "foldl add_col [] xs"
  from snoc have s: "set ?M = set xs" and d: "distinct ?M"
    and o: "sorted_wrt (\<lambda>a b. col_pos xs a < col_pos xs b) ?M" by simp_all
  have o': "sorted_wrt (\<lambda>a b. col_pos (xs @ [c]) a < col_pos (xs @ [c]) b) ?M"
    by (rule sorted_wrt_mono_rel[OF _ o]) (simp add: s col_pos_append_in)
  show ?case
  proof (cases "c \<in> set xs")
    case True
    then have "foldl add_col [] (xs @ [c]) = ?M" by (simp add: add_col_def s)
    with s d o' True show ?thesis by auto
  next
    case False
    then have M: "foldl add_col [] (xs @ [c]) = ?M @ [c]" by (simp add: add_col_def s)
    have "\<forall>a\<in>set ?M. col_pos (xs @ [c]) a < col_pos (xs @ [c]) c"
      using False by (simp add: s col_pos_append_in col_pos_snoc_new col_pos_lt)
    with s d o' False show ?thesis unfolding M by (simp add: sorted_wrt_append)
  qed
qed

lemma col_pos_nth: "distinct cs \<Longrightarrow> i < length cs \<Longrightarrow> col_pos cs (cs ! i) = i"
proof (induction cs arbitrary: i)
  case Nil
  then show ?case by simp
next
  case (Cons c cs)
  show ?case
  proof (cases i)
    case 0
    then show ?thesis by (simp add: col_pos_def)
  next
    case (Suc j)
    with Cons.prems have j: "j < length cs" "cs ! j \<noteq> c" "distinct cs" by auto
    from Cons.IH[OF j(3) j(1)] have "col_pos cs (cs ! j) = j" .
    with j(2) Suc show ?thesis by (simp add: col_pos_def)
  qed
qed

lemma row_layout:
  assumes "distinct cs" "length row = length cs"
  shows "map (\<lambda>c. if c \<in> set cs then row ! col_pos cs c else PNaN) cs = row"
proof (rule nth_equalityI)
  show "length (map (\<lambda>c. if c \<in> set cs then row ! col_pos cs c else PNaN) cs) = length row"
    using assms by simp
next
  fix i assume "i < length (map (\<lambda>c. if c \<in> set cs then row ! col_pos cs c else PNaN) cs)"
  then have i: "i < length cs" by simp
  then show "map (\<lambda>c. if c \<in> set cs then row ! col_pos cs c else PNaN) cs ! i = row ! i"
    using col_pos_nth[OF assms(1) i] by simp
qed

lemma laid_out_own:
  assumes "distinct (columns d)" "wf_frame d"
  shows "laid_out (columns d) d = cells d"
proof -
  have "map (\<lambda>row. map (\<lambda>c. if c \<in> set (columns d) then row ! col_pos (columns d) c else PNaN)
                          (columns d)) (cells d) = map (\<lambda>row. row) (cells d)"
  proof (rule map_cong[OF refl])
    fix row assume "row \<in> set (cells d)"
    then have "length row = length (columns d)" using assms(2) by (simp add: wf_frame_def list_all_iff)
    from row_layout[OF assms(1) this]
    show "map (\<lambda>c. if c \<in> set (columns d) then row ! col_pos (columns d) c else PNaN) (columns d) = row" .
  qed
  then show ?thesis by (simp add: laid_out_def)
qed

lemma reindex_ok:
  assumes "distinct (columns d)" "wf_frame d"
  shows "reindex d labels = Inr \<lparr>columns = labels, cells = laid_out labels d\<rparr>"
proof (cases "labels = columns d")
  case True
  then show ?thesis using laid_out_own[OF assms] by (simp add: reindex_def)
next
  case False
  then show ?thesis using assms(1) by (simp add: reindex_def laid_out_def)
qed

lemma reindex_dup:
  assumes "\<not> distinct (columns d)" "distinct labels"
  shows "reindex d labels = Inl ValueError"
proof -
  from assms have "labels \<noteq> columns d" by auto
  with assms(1) show ?thesis by (simp add: reindex_def)
qed

lemma reindex_all_ok:
  "\<forall>d\<in>set bs. distinct (columns d) \<and> wf_frame d \<Longrightarrow>
   reindex_all bs labels = Inr (map (\<lambda>d. \<lparr>columns = labels, cells = laid_out labels d\<rparr>) bs)"
  by (induction bs) (simp_all add: reindex_ok)

lemma error_only: "(e :: error) = ValueError"
  by (cases e) simp

lemma reindex_all_dup:
  "\<exists>d\<in>set bs. \<not> distinct (columns d) \<Longrightarrow> distinct labels \<Longrightarrow>
   reindex_all bs labels = Inl ValueError"
proof (induction bs)
  case Nil
  then show ?case by simp
next
  case (Cons d ds)
  show ?case
  proof (cases "reindex d labels")
    case (Inl e)
    then show ?thesis using error_only[of e] by simp
  next
    case (Inr n)
    with reindex_dup[OF _ Cons.prems(2), of d] have "distinct (columns d)" by auto
    with Cons.prems(1) have "\<exists>d\<in>set ds. \<not> distinct (columns d)" by auto
    from Cons.IH[OF this Cons.prems(2)] Inr show ?thesis by simp
  qed
qed

lemma laid_out_wf: "list_all (\<lambda>row. length row = length labels) (laid_out labels d)"
  by (simp add: laid_out_def list_all_iff)

lemma master_cols_distinct: "distinct (master_cols bs)"
  using first_seen[of "concat (map columns bs)"] by (simp add: master_cols_concat)

lemma master_cols_set: "set (master_cols bs) = (\<Union>d\<in>set bs. set (columns d))"
  using first_seen[of "concat (map columns bs)"] by (simp add: master_cols_concat)

lemma master_cols_order:
  "sorted_wrt (\<lambda>a b. col_pos (concat (map columns bs)) a < col_pos (concat (map columns bs)) b)
     (master_cols bs)"
  using first_seen[of "concat (map columns bs)"] by (simp add: master_cols_concat)

lemma align_columns_ok:
  assumes "bs \<noteq> []" "\<forall>d\<in>set bs. distinct (columns d) \<and> wf_frame d"
  shows "align_columns bs =
           Inr (Some \<lparr>columns = master_cols bs,
                      cells = concat (map (laid_out (master_cols bs)) bs)\<rparr>)"
proof -
  obtain b bs' where b: "bs = b # bs'" using assms(1) by (cases bs) auto
  have "reindex_all bs (master_cols bs)
        = Inr (map (\<lambda>d. \<lparr>columns = master_cols bs, cells = laid_out (master_cols bs) d\<rparr>) bs)"
    using reindex_all_ok[OF assms(2)] .
  then show ?thesis using assms(1)
    by (simp add: align_columns_def pd_concat_def b comp_def)
qed

lemma align_columns_dup:
  assumes "\<exists>d\<in>set bs. \<not> distinct (columns d)"
  shows "align_columns bs = Inl ValueError"
proof -
  from assms have "bs \<noteq> []" by auto
  moreover have "reindex_all bs (master_cols bs) = Inl ValueError"
    using reindex_all_dup[OF assms master_cols_distinct] .
  ultimately show ?thesis by (simp add: align_columns_def)
qed

text \<open>
  C7.  For every list \<open>bs\<close> of page frames that reaches the alignment of \<^verbatim>\<open>parse_events_pdf\<close>:
  \<^item> \<^verbatim>\<open>master_cols\<close> holds every label of every frame, and nothing else, once each: its set
    is the union of the label sets of the frames;
  \<^item> the labels stand in \<^verbatim>\<open>master_cols\<close> in the order in which they are first seen going
    through the frames and, in each frame, through its labels;
  \<^item> when there is a frame, no frame has a label twice and every row has a cell for every
    column, the step returns a frame whose labels are \<^verbatim>\<open>master_cols\<close>, so the union, and
    whose rows are the rows of the frames, in their order, each with the cell it had under
    a label and the unknown marker \<^verbatim>\<open>NaN\<close> under every label its frame lacks;
  \<^item> when a frame has a label twice the step raises and there is no output; with no frame at
    all the function returns without an output.
\<close>

theorem align_columns_spec:
  "distinct (master_cols bs)
   \<and> set (master_cols bs) = (\<Union>d\<in>set bs. set (columns d))
   \<and> sorted_wrt (\<lambda>a b. col_pos (concat (map columns bs)) a < col_pos (concat (map columns bs)) b)
        (master_cols bs)
   \<and> (bs \<noteq> [] \<and> (\<forall>d\<in>set bs. distinct (columns d) \<and> wf_frame d) \<longrightarrow>
        (\<exists>out. align_columns bs = Inr (Some out) \<and> columns out = master_cols bs \<and> wf_frame out
           \<and> set (columns out) = (\<Union>d\<in>set bs. set (columns d))
           \<and> cells out = concat (map (laid_out (columns out)) bs)))
   \<and> ((\<exists>d\<in>set bs. \<not> distinct (columns d)) \<longrightarrow> align_columns bs = Inl ValueError)
   \<and> (bs = [] \<longrightarrow> align_columns bs = Inr None)"
proof (intro conjI impI)
  show "distinct (master_cols bs)" by (rule master_cols_distinct)
  show "set (master_cols bs) = (\<Union>d\<in>set bs. set (columns d))" by (rule master_cols_set)
  show "sorted_wrt (\<lambda>a b. col_pos (concat (map columns bs)) a < col_pos (concat (map columns bs)) b)
        (master_cols bs)" by (rule master_cols_order)
next
  assume a: "bs \<noteq> [] \<and> (\<forall>d\<in>set bs. distinct (columns d) \<and> wf_frame d)"
  let ?out = "\<lparr>columns = master_cols bs, cells = concat (map (laid_out (master_cols bs)) bs)\<rparr>"
  have "align_columns bs = Inr (Some ?out)" using a by (intro align_columns_ok) auto
  moreover have "wf_frame ?out"
    using laid_out_wf[of "master_cols bs"] by (auto simp: wf_frame_def list_all_iff)
  ultimately show "\<exists>out. align_columns bs = Inr (Some out) \<and> columns out = master_cols bs \<and> wf_frame out
           \<and> set (columns out) = (\<Union>d\<in>set bs. set (columns d))
           \<and> cells out = concat (map (laid_out (columns out)) bs)"
    using master_cols_set[of bs] by (intro exI[of _ ?out]) simp
next
  assume "\<exists>d\<in>set bs. \<not> distinct (columns d)"
  then show "align_columns bs = Inl ValueError" by (rule align_columns_dup)
next
  assume "bs = []"
  then show "align_columns bs = Inr None" by (simp add: align_columns_def)
qed

theorem align_columns_spec_witness:
  "align_columns
     [\<lparr>columns = [''Event'', ''Rank'', ''D''], cells = [[PStr ''Vault'', PStr ''1'', PStr ''5.4'']]\<rparr>,
      \<lparr>columns = [''Event'', ''Pen'', ''Rank''],
       cells = [[PStr ''Floor'', PStr ''-0.1'', PStr ''2'']]\<rparr>]
   = Inr (Some \<lparr>columns = [''Event'', ''Rank'', ''D'', ''Pen''],
                cells = [[PStr ''Vault'', PStr ''1'', PStr ''5.4'', PNaN],
                         [PStr ''Floor'', PStr ''2'', PNaN, PStr ''-0.1'']]\<rparr>)
   \<and> align_columns
     [\<lparr>columns = [''Event'', ''Pen'', ''Pen''], cells = [[PStr ''Vault'', PStr ''0'', PStr ''0'']]\<rparr>]
     = Inl ValueError
   \<and> align_columns [] = Inr None"
proof -
  let ?b1 = "\<lparr>columns = [''Event'', ''Rank'', ''D''], cells = [[PStr ''Vault'', PStr ''1'', PStr ''5.4'']]\<rparr>"
  let ?b2 = "\<lparr>columns = [''Event'', ''Pen'', ''Rank''],
       cells = [[PStr ''Floor'', PStr ''-0.1'', PStr ''2'']]\<rparr>"
  let ?b3 = "\<lparr>columns = [''Event'', ''Pen'', ''Pen''], cells = [[PStr ''Vault'', PStr ''0'', PStr ''0'']]\<rparr>"
  have m: "master_cols [?b1, ?b2] = [''Event'', ''Rank'', ''D'', ''Pen'']"
    by (simp add: master_cols_def add_col_def)
  have h: "[?b1, ?b2] \<noteq> [] \<and> (\<forall>d\<in>set [?b1, ?b2]. distinct (columns d) \<and> wf_frame d)"
    by (simp add: wf_frame_def)
  from align_columns_spec[of "[?b1, ?b2]"] h obtain out where
    o: "align_columns [?b1, ?b2] = Inr (Some out)" "columns out = master_cols [?b1, ?b2]"
       "cells out = concat (map (laid_out (columns out)) [?b1, ?b2])"
    by blast
  from o(2) o(3) have "out = \<lparr>columns = [''Event'', ''Rank'', ''D'', ''Pen''],
                cells = [[PStr ''Vault'', PStr ''1'', PStr ''5.4'', PNaN],
                         [PStr ''Floor'', PStr ''2'', PNaN, PStr ''-0.1'']]\<rparr>"
    by (simp add: m laid_out_def col_pos_def)
  with o(1) have A: "align_columns [?b1, ?b2]
      = Inr (Some \<lparr>columns = [''Event'', ''Rank'', ''D'', ''Pen''],
                cells = [[PStr ''Vault'', PStr ''1'', PStr ''5.4'', PNaN],
                         [PStr ''Floor'', PStr ''2'', PNaN, PStr ''-0.1'']]\<rparr>)" by simp
  from align_columns_spec[of "[?b3]"] have B: "align_columns [?b3] = Inl ValueError" by simp
  from align_columns_spec[of "[]"] have C: "align_columns [] = Inr None" by simp
  from A B C show ?thesis by (intro conjI)
qed

section \<open>The numeric pass over the columns (C8)\<close>

lemma num_of_int_column:
  "list_all is_int ns \<Longrightarrow>
   map (\<lambda>v. case num_of parse v of Some n \<Rightarrow> n | None \<Rightarrow> NNaN)
       (map (\<lambda>n. case n of NInt i \<Rightarrow> PInt i | _ \<Rightarrow> PNaN) ns) = ns"
  by (induction ns) (auto simp: is_int_def num_of_def split: numv.splits)

lemma num_of_to_float:
  "(case num_of parse (to_float n) of Some m \<Rightarrow> m | None \<Rightarrow> NNaN)
   = (case n of NInt i \<Rightarrow> NFloat (of_int i) | _ \<Rightarrow> n)"
  by (cases n) (simp_all add: to_float_def num_of_def)

lemma to_float_float:
  "to_float (case n of NInt i \<Rightarrow> NFloat (of_int i) | _ \<Rightarrow> n) = to_float n"
  by (cases n) (simp_all add: to_float_def)

lemma not_int_float: "\<not> is_int (case n of NInt i \<Rightarrow> NFloat (of_int i) | _ \<Rightarrow> n)"
  by (cases n) (simp_all add: is_int_def)

lemma float_column_not_int:
  "\<not> list_all is_int ns \<Longrightarrow>
   \<not> list_all is_int (map (\<lambda>n. case n of NInt i \<Rightarrow> NFloat (of_int i) | _ \<Rightarrow> n) ns)"
proof -
  assume "\<not> list_all is_int ns"
  then obtain n where "n \<in> set ns" by (auto simp: list_all_iff)
  then show ?thesis using not_int_float by (auto simp: list_all_iff)
qed

lemma as_column_again:
  "as_column (map (\<lambda>v. case num_of parse v of Some n \<Rightarrow> n | None \<Rightarrow> NNaN) (as_column ns))
   = as_column ns"
proof (cases "list_all is_int ns")
  case True
  then have "as_column ns = map (\<lambda>n. case n of NInt i \<Rightarrow> PInt i | _ \<Rightarrow> PNaN) ns"
    by (simp add: as_column_def)
  then have "map (\<lambda>v. case num_of parse v of Some n \<Rightarrow> n | None \<Rightarrow> NNaN) (as_column ns) = ns"
    using num_of_int_column[OF True, of parse] by (simp only:)
  then show ?thesis by (simp only:)
next
  case False
  let ?fl = "\<lambda>n. case n of NInt i \<Rightarrow> NFloat (of_int i) | _ \<Rightarrow> n"
  have c: "as_column ns = map to_float ns" using False by (simp add: as_column_def)
  have "map (\<lambda>v. case num_of parse v of Some n \<Rightarrow> n | None \<Rightarrow> NNaN) (map to_float ns)
        = map ?fl ns"
    by (simp add: num_of_to_float comp_def)
  then have m: "map (\<lambda>v. case num_of parse v of Some n \<Rightarrow> n | None \<Rightarrow> NNaN) (as_column ns)
        = map ?fl ns"
    by (simp only: c)
  have "as_column (map ?fl ns) = map to_float (map ?fl ns)"
    using float_column_not_int[OF False] by (simp only: as_column_def if_False)
  also have "\<dots> = map to_float ns" by (simp add: to_float_float comp_def)
  finally have f: "as_column (map ?fl ns) = map to_float ns" .
  show ?thesis by (subst m, subst f, subst c, rule refl)
qed

lemma to_numeric_coerce_idem:
  "to_numeric_coerce parse (to_numeric_coerce parse col) = to_numeric_coerce parse col"
  by (simp add: to_numeric_coerce_def as_column_again)

lemma as_column_numeric: "list_all (\<lambda>v. num_of parse v \<noteq> None) (as_column ns)"
  by (auto simp: as_column_def list_all_iff num_of_def to_float_def split: numv.splits)

lemma to_numeric_ignore_idem:
  "to_numeric_ignore parse (to_numeric_ignore parse col) = to_numeric_ignore parse col"
proof (cases "list_all (\<lambda>v. num_of parse v \<noteq> None) col")
  case True
  have "list_all (\<lambda>v. num_of parse v \<noteq> None) (to_numeric_coerce parse col)"
    unfolding to_numeric_coerce_def by (rule as_column_numeric)
  with True show ?thesis by (simp add: to_numeric_ignore_def to_numeric_coerce_idem)
next
  case False
  then show ?thesis by (simp add: to_numeric_ignore_def)
qed

lemma numeric_pass_idem:
  "(\<And>col. conv (conv col) = conv col) \<Longrightarrow>
   numeric_pass conv keep (numeric_pass conv keep df) = numeric_pass conv keep df"
  by (induction df) (simp_all add: numeric_pass_def)

text \<open>
  C8.  However texts are read as numbers, converting a column that is already the result of
  the conversion gives the same column, for \<^verbatim>\<open>errors="coerce"\<close> (the individual script) and
  for \<^verbatim>\<open>errors="ignore"\<close> (\<^verbatim>\<open>events.py\<close>); so running the numeric pass of either script on
  the table it has produced gives the same table.
\<close>

theorem numeric_coercion_idempotent:
  "to_numeric_coerce parse (to_numeric_coerce parse col) = to_numeric_coerce parse col
   \<and> to_numeric_ignore parse (to_numeric_ignore parse col) = to_numeric_ignore parse col
   \<and> events_numeric_pass parse (events_numeric_pass parse df) = events_numeric_pass parse df
   \<and> individual_numeric_cleanup parse (individual_numeric_cleanup parse df)
       = individual_numeric_cleanup parse df"
  by (simp add: to_numeric_coerce_idem to_numeric_ignore_idem numeric_pass_idem
        events_numeric_pass_def individual_numeric_cleanup_def)

theorem numeric_coercion_idempotent_witness:
  "to_numeric_coerce decimal_parse [PStr ''5.300'', PStr ''DNS'', PNone] = [PFloat (53 / 10), PNaN, PNaN]
   \<and> to_numeric_coerce decimal_parse [PFloat (53 / 10), PNaN, PNaN] = [PFloat (53 / 10), PNaN, PNaN]
   \<and> to_numeric_ignore decimal_parse [PStr ''5.300'', PStr ''DNS''] = [PStr ''5.300'', PStr ''DNS'']
   \<and> to_numeric_ignore decimal_parse [PStr ''5.300'', PNaN] = [PFloat (53 / 10), PNaN]
   \<and> to_numeric_ignore decimal_parse [PFloat (53 / 10), PNaN] = [PFloat (53 / 10), PNaN]
   \<and> to_numeric_coerce decimal_parse [PInt 1, PInt 2] = [PInt 1, PInt 2]"
proof -
  have p: "decimal_parse ''5.300'' = Some (NFloat (53 / 10))" "decimal_parse ''DNS'' = None"
    by (simp_all add: decimal_parse_def is_float_eval num_eval)
  have a: "to_numeric_coerce decimal_parse [PStr ''5.300'', PStr ''DNS'', PNone]
           = [PFloat (53 / 10), PNaN, PNaN]"
    by (simp add: to_numeric_coerce_def num_of_def as_column_def is_int_def to_float_def p)
  have b: "to_numeric_ignore decimal_parse [PStr ''5.300'', PNaN] = [PFloat (53 / 10), PNaN]"
    by (simp add: to_numeric_ignore_def to_numeric_coerce_def num_of_def as_column_def is_int_def
          to_float_def p)
  have c: "to_numeric_ignore decimal_parse [PStr ''5.300'', PStr ''DNS''] = [PStr ''5.300'', PStr ''DNS'']"
    by (simp add: to_numeric_ignore_def num_of_def p)
  have d: "to_numeric_coerce decimal_parse [PInt 1, PInt 2] = [PInt 1, PInt 2]"
    by (simp add: to_numeric_coerce_def num_of_def as_column_def is_int_def)
  have a': "to_numeric_coerce decimal_parse [PFloat (53 / 10), PNaN, PNaN] = [PFloat (53 / 10), PNaN, PNaN]"
    using numeric_coercion_idempotent[of decimal_parse "[PStr ''5.300'', PStr ''DNS'', PNone]",
            THEN conjunct1]
    unfolding a .
  have b': "to_numeric_ignore decimal_parse [PFloat (53 / 10), PNaN] = [PFloat (53 / 10), PNaN]"
    using numeric_coercion_idempotent[of decimal_parse "[PStr ''5.300'', PNaN]",
            THEN conjunct2, THEN conjunct1]
    unfolding b .
  from a a' c b b' d show ?thesis by (intro conjI)
qed

end
